theory Spec2Isabelle
  imports Complex_Main "HOL-Library.Word"
begin

section \<open>Pen plotter: photo to raster strokes to G-code (src/app.js)\<close>

text \<open>
  The program is one browser script. Its numbers are JavaScript doubles. A number of the
  script is here the real number the double stands for, or \<open>None\<close> for NaN; the loop
  counters, the pixel sizes and the parsed integers, which are whole numbers, are \<open>int\<close>.
  What the script computes with rounding is rounded here: every product, quotient and sum of
  the sizes, of the luminance and of the coordinates is followed by \<open>fl\<close>, the rounding
  to the nearest double. Two things are left exact: the pass angles (lines 70-74), and the
  range of a double, which has no largest number here, so that the infinities of the script
  are outside the model. Wherever the script divides, the theorems below that depend on the
  quotient assume a divisor that is not zero.

  The 2D canvas of the browser is not part of the script. It is a parameter of the model:
  a function from everything the script hands to the canvas (the image, the target size,
  the angle in radians, the size of the rotated canvas) to either the exception the canvas
  throws or the RGBA bytes that \<open>getImageData\<close> returns.
\<close>

subsection \<open>Data\<close>

record 'a point =
  pt_x :: 'a
  pt_y :: 'a

type_synonym 'a stroke = "'a point list"

record image =
  src :: string
  naturalWidth :: nat
  naturalHeight :: nat

type_synonym canvas =
  "image \<Rightarrow> int option \<Rightarrow> int option \<Rightarrow> real \<Rightarrow> int option \<Rightarrow> int option \<Rightarrow> string + 8 word list"

record canvas_size =
  cs_w :: "int option"
  cs_h :: "int option"
  cs_mmPerPx :: "real option"
  cs_angles :: "real list"

record pass =
  pass_angle :: real
  pass_strokes :: "int stroke list"

text \<open>
  The values of the fields of the form when the button is clicked. A field read by
  \<open>parseFloat\<close> is the decimal number at the start of its text, before it is rounded to
  a double, and \<open>None\<close> when the text starts with no number (an empty field): the
  script then gets NaN. A field read by \<open>parseInt\<close> is the whole number at the start of
  its text, or \<open>None\<close>.
\<close>

record inputs =
  widthMM :: "real option"
  pxPerMM :: "real option"
  lineSpacingMM :: "real option"
  threshold :: "int option"
  angle :: "real option"
  passes :: "int option"

record app_state =
  img :: image
  lastStrokes :: "real option stroke list option"
  lastCanvasSize :: canvas_size
  processBtn_disabled :: bool
  downloadPNG_disabled :: bool
  downloadGcode_disabled :: bool

record motion =
  penDownZ :: real
  penUpZ :: real
  feedTravel :: real
  feedDraw :: real
  absolute :: bool

subsection \<open>Arithmetic of the language\<close>

text \<open>
  The rounding of a real number to the nearest double (IEEE 754 binary64, round to nearest,
  ties to even): \<open>rne\<close> rounds to the nearest integer, the even one of two; a double has
  53 significant bits, so the unit in the last place of \<open>x\<close> is \<open>2\<close> to the power
  \<open>\<lfloor>log 2 |x|\<rfloor> - 52\<close>, and \<open>2\<close> to the power \<open>-1074\<close> for the subnormal numbers,
  below \<open>2\<close> to the power \<open>-1022\<close>.
\<close>

definition rne :: "real \<Rightarrow> int" where
  "rne x = (let f = \<lfloor>x\<rfloor>; d = x - of_int f
            in if d < 1 / 2 then f else if 1 / 2 < d then f + 1 else if even f then f else f + 1)"

definition ulp_exp :: "real \<Rightarrow> int" where
  "ulp_exp x = max \<lfloor>log 2 \<bar>x\<bar>\<rfloor> (- 1022) - 52"

definition fl :: "real \<Rightarrow> real" where
  "fl x = (if x = 0 then 0 else of_int (rne (x / 2 powi ulp_exp x)) * 2 powi ulp_exp x)"

text \<open>
  The product and the quotient of two numbers of the script: NaN when one of them is NaN,
  else the double nearest to the exact result.
\<close>

definition mulD :: "real option \<Rightarrow> real option \<Rightarrow> real option" where
  "mulD a b = (case (a, b) of (Some x, Some y) \<Rightarrow> Some (fl (x * y)) | _ \<Rightarrow> None)"

definition divD :: "real option \<Rightarrow> real option \<Rightarrow> real option" where
  "divD a b = (case (a, b) of (Some x, Some y) \<Rightarrow> Some (fl (x / y)) | _ \<Rightarrow> None)"

text \<open>\<open>parseFloat\<close>: the double nearest to the decimal number read, or NaN.\<close>

definition parseFloat :: "real option \<Rightarrow> real option" where
  "parseFloat field = map_option fl field"

text \<open>
  \<open>Math.round\<close> gives the nearest integer, the larger one of two: it is
  \<open>floor (x + 1/2)\<close> of the exact value of the double.
\<close>

definition Math_round :: "real \<Rightarrow> int" where
  "Math_round v = \<lfloor>v + 1 / 2\<rfloor>"

text \<open>
  \<open>Math.PI\<close> is the double nearest to \<open>pi\<close>, 3.141592653589793. The language leaves
  the accuracy of \<open>Math.cos\<close> and \<open>Math.sin\<close> to the implementation: here they are the
  doubles nearest to the exact cosine and sine of their argument.
\<close>

definition Math_PI :: real where
  "Math_PI = 884279719003555 / 2 ^ 48"

definition Math_cos :: "real \<Rightarrow> real" where
  "Math_cos x = fl (cos x)"

definition Math_sin :: "real \<Rightarrow> real" where
  "Math_sin x = fl (sin x)"

text \<open>
  The \<open>%\<close> of JavaScript on numbers: the remainder of the division truncated towards
  zero, so the result has the sign of the dividend.
\<close>

definition js_rem :: "real \<Rightarrow> real \<Rightarrow> real" where
  "js_rem a b = (let q = a / b in a - b * of_int (if 0 \<le> q then \<lfloor>q\<rfloor> else \<lceil>q\<rceil>))"

subsection \<open>extractStrokesFromImage (lines 173-264)\<close>

text \<open>A read of the typed array: \<open>undefined\<close> (here \<open>None\<close>) outside its length.\<close>

definition data_at :: "8 word list \<Rightarrow> int \<Rightarrow> 8 word option" where
  "data_at data i = (if 0 \<le> i \<and> i < int (length data) then Some (data ! nat i) else None)"

text \<open>
  Line 213: the luminance. The three weights are the doubles nearest to the decimal numbers
  written, each product is rounded, and the two sums are computed from the left.
\<close>

definition luminance :: "8 word \<Rightarrow> 8 word \<Rightarrow> 8 word \<Rightarrow> real" where
  "luminance r g b =
     fl (fl (fl (fl 0.2126 * real (unat r)) + fl (fl 0.7152 * real (unat g)))
         + fl (fl 0.0722 * real (unat b)))"

text \<open>
  \<open>pixelGray\<close> (lines 208-214). Arithmetic on \<open>undefined\<close> gives NaN, here \<open>None\<close>.
\<close>

definition pixelGray :: "int \<Rightarrow> int \<Rightarrow> 8 word list \<Rightarrow> int \<Rightarrow> int \<Rightarrow> real option" where
  "pixelGray rotW rotH data x y =
     (if x < 0 \<or> x \<ge> rotW \<or> y < 0 \<or> y \<ge> rotH then Some 255
      else
        let idx = (y * rotW + x) * 4 in
        case (data_at data idx, data_at data (idx + 1), data_at data (idx + 2)) of
          (Some r, Some g, Some b) \<Rightarrow> Some (luminance r g b)
        | _ \<Rightarrow> None)"

text \<open>\<open>g < threshold\<close> (line 223); a comparison with NaN, on either side, is false.\<close>

definition isDark :: "int \<Rightarrow> int \<Rightarrow> 8 word list \<Rightarrow> int option \<Rightarrow> int \<Rightarrow> int \<Rightarrow> bool" where
  "isDark rotW rotH data threshold' x y =
     (case (pixelGray rotW rotH data x y, threshold') of
        (Some g, Some t) \<Rightarrow> g < real_of_int t
      | _ \<Rightarrow> False)"

text \<open>
  The inner loop over the columns (lines 221-243), from column \<open>x\<close> on, on the loop's
  variables \<open>inRun\<close>, \<open>run\<close> and \<open>strokes\<close>.
\<close>

function scanCols ::
  "int \<Rightarrow> int \<Rightarrow> 8 word list \<Rightarrow> int option \<Rightarrow> int \<Rightarrow> int \<Rightarrow>
   bool \<times> int point list \<times> int stroke list \<Rightarrow> bool \<times> int point list \<times> int stroke list" where
  "scanCols rotW rotH data threshold' y x (inRun, run, strokes) =
     (if x < rotW then
        (if isDark rotW rotH data threshold' x y then
           (if \<not> inRun then
              scanCols rotW rotH data threshold' y (x + 1)
                (True, [\<lparr>pt_x = x, pt_y = y\<rparr>], strokes)
            else
              scanCols rotW rotH data threshold' y (x + 1)
                (inRun, run @ [\<lparr>pt_x = x, pt_y = y\<rparr>], strokes))
         else
           (if inRun then
              scanCols rotW rotH data threshold' y (x + 1)
                (False, [],
                 if length run \<ge> 1 then strokes @ [[run ! 0, run ! (length run - 1)]]
                 else strokes)
            else
              scanCols rotW rotH data threshold' y (x + 1) (inRun, run, strokes)))
      else (inRun, run, strokes))"
  by pat_completeness auto
termination
  by (relation "measure (\<lambda>(rotW, rotH, data, threshold', y, x, st). nat (rotW - x))") auto

declare scanCols.simps [simp del]

text \<open>
  The body of the outer loop (lines 219-247): one row, and the run still open at its end
  closed (lines 245-247).
\<close>

fun closeRun :: "bool \<times> int point list \<times> int stroke list \<Rightarrow> int stroke list" where
  "closeRun (inRun, run, strokes) =
     (if inRun \<and> length run \<ge> 1 then strokes @ [[run ! 0, run ! (length run - 1)]]
      else strokes)"

definition scanRow ::
  "int \<Rightarrow> int \<Rightarrow> 8 word list \<Rightarrow> int option \<Rightarrow> int \<Rightarrow> int stroke list \<Rightarrow> int stroke list" where
  "scanRow rotW rotH data threshold' y strokes =
     closeRun (scanCols rotW rotH data threshold' y 0 (False, [], strokes))"

text \<open>
  The outer loop (line 218), from row \<open>y\<close> on: \<open>y += lineSpacingPx\<close> while \<open>y < rotH\<close>.
  With a spacing below 1 and a row to scan the loop of the script does not end: \<open>None\<close>.
  With a spacing that is NaN, \<open>y\<close> is NaN after the first row and \<open>y < rotH\<close> is false:
  the loop ends there.
\<close>

partial_function (option) scanRows ::
  "int \<Rightarrow> int \<Rightarrow> 8 word list \<Rightarrow> int option \<Rightarrow> int option \<Rightarrow> int \<Rightarrow> int stroke list \<Rightarrow>
   int stroke list option" where
  "scanRows rotW rotH data lineSpacingPx threshold' y strokes =
     (if y < rotH then
        (case lineSpacingPx of
           Some sp \<Rightarrow>
             scanRows rotW rotH data lineSpacingPx threshold' (y + sp)
               (scanRow rotW rotH data threshold' y strokes)
         | None \<Rightarrow> Some (scanRow rotW rotH data threshold' y strokes))
      else Some strokes)"

text \<open>Line 175: the angle in radians.\<close>

definition angleRad_of :: "real \<Rightarrow> real" where
  "angleRad_of angleDeg = fl (fl (angleDeg * Math_PI) / 180)"

text \<open>
  The size of the rotated canvas (lines 184-187); NaN when the target width or the target
  height is NaN.
\<close>

definition rotDims :: "int option \<Rightarrow> int option \<Rightarrow> real \<Rightarrow> int option \<times> int option" where
  "rotDims targetW targetH angleDeg =
     (let cos' = \<bar>Math_cos (angleRad_of angleDeg)\<bar>;
          sin' = \<bar>Math_sin (angleRad_of angleDeg)\<bar>
      in case (targetW, targetH) of
           (Some w, Some h) \<Rightarrow>
             (Some \<lceil>fl (fl (real_of_int w * cos') + fl (real_of_int h * sin'))\<rceil>,
              Some \<lceil>fl (fl (real_of_int w * sin') + fl (real_of_int h * cos'))\<rceil>)
         | _ \<Rightarrow> (None, None))"

text \<open>Lines 253-259: each stroke copied as its two end points.\<close>

definition simpleStrokes :: "int stroke list \<Rightarrow> int stroke list" where
  "simpleStrokes strokes =
     map (\<lambda>s. [\<lparr>pt_x = pt_x (s ! 0) + 0, pt_y = pt_y (s ! 0) + 0\<rparr>,
               \<lparr>pt_x = pt_x (s ! 1) + 0, pt_y = pt_y (s ! 1) + 0\<rparr>]) strokes"

text \<open>
  The whole function. \<open>Some (Inl err)\<close>: the canvas threw \<open>err\<close>; \<open>None\<close>: the row loop
  does not end. With a size of the rotated canvas that is NaN, \<open>y < rotH\<close> and \<open>x < rotW\<close>
  are false and no row or column is scanned.
\<close>

definition extractStrokesFromImage ::
  "canvas \<Rightarrow> image \<Rightarrow> int option \<Rightarrow> int option \<Rightarrow> real \<Rightarrow> int option \<Rightarrow> int option \<Rightarrow>
   (string + int stroke list) option" where
  "extractStrokesFromImage cv image' targetW targetH angleDeg lineSpacingPx threshold' =
     (let (rotW, rotH) = rotDims targetW targetH angleDeg
      in case cv image' targetW targetH (angleRad_of angleDeg) rotW rotH of
           Inl err \<Rightarrow> Some (Inl err)
         | Inr data \<Rightarrow>
             (case (rotW, rotH) of
                (Some rotW', Some rotH') \<Rightarrow>
                  (case scanRows rotW' rotH' data lineSpacingPx threshold' 0 [] of
                     None \<Rightarrow> None
                   | Some strokes \<Rightarrow> Some (Inr (simpleStrokes strokes)))
              | _ \<Rightarrow> Some (Inr (simpleStrokes []))))"

subsection \<open>The click handler of processBtn (lines 52-110)\<close>

text \<open>Lines 64-66. \<open>Math.round\<close> and \<open>Math.max\<close> of NaN are NaN.\<close>

definition targetPxWidth :: "real option \<Rightarrow> real option \<Rightarrow> int option" where
  "targetPxWidth widthMM' pxPerMM' =
     map_option (\<lambda>v. max 1 (Math_round v)) (mulD widthMM' pxPerMM')"

definition scale :: "int option \<Rightarrow> nat \<Rightarrow> real option" where
  "scale targetPxWidth' naturalWidth' =
     divD (map_option real_of_int targetPxWidth') (Some (real naturalWidth'))"

definition targetPxHeight :: "nat \<Rightarrow> real option \<Rightarrow> int option" where
  "targetPxHeight naturalHeight' scale' =
     map_option Math_round (mulD (Some (real naturalHeight')) scale')"

text \<open>Lines 70-74: the loop that pushes one angle for each \<open>p\<close> below \<open>passes\<close>.\<close>

definition passAngles :: "real \<Rightarrow> int \<Rightarrow> real list" where
  "passAngles angleDeg passes' =
     map (\<lambda>p. js_rem (angleDeg + (real p * 180 / real_of_int passes')) 360) [0..<nat passes']"

text \<open>
  Lines 80-84: one call of \<open>extractStrokesFromImage\<close> for each angle, in order; an
  exception leaves the loop.
\<close>

fun extractPasses ::
  "canvas \<Rightarrow> image \<Rightarrow> int option \<Rightarrow> int option \<Rightarrow> int option \<Rightarrow> int option \<Rightarrow> real list \<Rightarrow>
   (string + pass list) option" where
  "extractPasses cv image' targetW targetH lineSpacingPx threshold' [] = Some (Inr [])"
| "extractPasses cv image' targetW targetH lineSpacingPx threshold' (ang # angles) =
     (case extractStrokesFromImage cv image' targetW targetH ang lineSpacingPx threshold' of
        None \<Rightarrow> None
      | Some (Inl err) \<Rightarrow> Some (Inl err)
      | Some (Inr strokes) \<Rightarrow>
          (case extractPasses cv image' targetW targetH lineSpacingPx threshold' angles of
             None \<Rightarrow> None
           | Some (Inl err) \<Rightarrow> Some (Inl err)
           | Some (Inr rest) \<Rightarrow> Some (Inr (\<lparr>pass_angle = ang, pass_strokes = strokes\<rparr> # rest))))"

text \<open>Lines 87-93: the strokes of all passes in one list, in millimetres.\<close>

definition combinedStrokes :: "real option \<Rightarrow> pass list \<Rightarrow> real option stroke list" where
  "combinedStrokes mmPerPx strokesByPass =
     concat (map (\<lambda>pass'.
       map (\<lambda>st. map (\<lambda>pt. \<lparr>pt_x = mulD (Some (real_of_int (pt_x pt))) mmPerPx,
                             pt_y = mulD (Some (real_of_int (pt_y pt))) mmPerPx\<rparr>) st)
         (pass_strokes pass')) strokesByPass)"

text \<open>Lines 60, 61, 76 and 77. \<open>v || d\<close> is \<open>d\<close> when \<open>v\<close> is NaN or 0.\<close>

definition angleDeg_of :: "inputs \<Rightarrow> real" where
  "angleDeg_of inp =
     (case parseFloat (angle inp) of None \<Rightarrow> 0 | Some a \<Rightarrow> if a = 0 then 0 else a)"

definition passes_of :: "inputs \<Rightarrow> int" where
  "passes_of inp = max 1 (case passes inp of None \<Rightarrow> 1 | Some n \<Rightarrow> if n = 0 then 1 else n)"

definition mmPerPx_of :: "inputs \<Rightarrow> real option" where
  "mmPerPx_of inp = divD (Some 1) (parseFloat (pxPerMM inp))"

definition lineSpacingPx_of :: "inputs \<Rightarrow> int option" where
  "lineSpacingPx_of inp =
     map_option (\<lambda>v. max 1 (Math_round v))
       (mulD (parseFloat (lineSpacingMM inp)) (parseFloat (pxPerMM inp)))"

text \<open>
  The handler: the new state and the text of the alert, if any. Drawing the preview and
  the text of the status line are left out.
\<close>

definition processBtn_click ::
  "canvas \<Rightarrow> inputs \<Rightarrow> app_state \<Rightarrow> (app_state \<times> string option) option" where
  "processBtn_click cv inp s =
     (if src (img s) = [] then Some (s, None)
      else
        let w = targetPxWidth (parseFloat (widthMM inp)) (parseFloat (pxPerMM inp));
            sc = scale w (naturalWidth (img s));
            h = targetPxHeight (naturalHeight (img s)) sc;
            angles = passAngles (angleDeg_of inp) (passes_of inp)
        in case extractPasses cv (img s) w h (lineSpacingPx_of inp) (threshold inp) angles of
             None \<Rightarrow> None
           | Some (Inl err) \<Rightarrow>
               Some (s\<lparr>processBtn_disabled := False\<rparr>, Some (''Error processing image: '' @ err))
           | Some (Inr strokesByPass) \<Rightarrow>
               Some (s\<lparr>lastStrokes := Some (combinedStrokes (mmPerPx_of inp) strokesByPass),
                       lastCanvasSize :=
                         \<lparr>cs_w = w, cs_h = h, cs_mmPerPx = mmPerPx_of inp, cs_angles = angles\<rparr>,
                       downloadPNG_disabled := False,
                       downloadGcode_disabled := False,
                       processBtn_disabled := False\<rparr>, None))"

subsection \<open>The click handler of downloadGcode (lines 121-170)\<close>

text \<open>
  Two conversions of the language from a number to text occur. The template literals
  (\<open>F${feedDraw}\<close>, \<open>stroke ${idx + 1}\<close>) use its \<open>ToString\<close>, the shortest decimal text
  that reads back as the same double: it is a parameter \<open>numStr\<close> of the model.
  \<open>toFixed\<close> is written out as the language standard defines it, on the real value of
  the double: the sign, then the integer \<open>n\<close> nearest to \<open>x * 10^f\<close> (the larger one
  of two), as decimal digits with a point before the last \<open>f\<close> of them, padded with zeros
  to \<open>f + 1\<close> digits; from \<open>10^21\<close> on it is \<open>ToString\<close>, and of NaN it is the text
  \<open>NaN\<close>.
\<close>

definition digitChar :: "nat \<Rightarrow> char" where
  "digitChar d = ''0123456789'' ! d"

function decimal :: "nat \<Rightarrow> string" where
  "decimal n = (if n < 10 then [digitChar n] else decimal (n div 10) @ [digitChar (n mod 10)])"
  by pat_completeness auto
termination
  by (relation "measure id") auto

declare decimal.simps [simp del]

definition toFixed :: "(real \<Rightarrow> string) \<Rightarrow> real option \<Rightarrow> nat \<Rightarrow> string" where
  "toFixed numStr v' f =
     (case v' of
        None \<Rightarrow> ''NaN''
      | Some v \<Rightarrow>
          let s = (if v < 0 then ''-'' else []);
              x = (if v < 0 then - v else v)
          in if x \<ge> 10 ^ 21 then s @ numStr x
             else
               let n = nat \<lfloor>x * 10 ^ f + 1 / 2\<rfloor>;
                   m = decimal n
               in if f \<noteq> 0 then
                    let k = length m;
                        m' = (if k \<le> f then replicate (f + 1 - k) (CHR ''0'') @ m else m);
                        k' = (if k \<le> f then f + 1 else k)
                    in s @ take (k' - f) m' @ ''.'' @ drop (k' - f) m'
                  else s @ m)"

text \<open>Lines 129-135. The arrow of the first line is its three bytes in UTF-8.\<close>

definition header :: "(real \<Rightarrow> string) \<Rightarrow> motion \<Rightarrow> string list" where
  "header numStr m =
     [''; Generated by Pen Plotter Photo '' @ [CHR 0xE2, CHR 0x86, CHR 0x92] @ '' G-code'',
      ''G21 ; units mm'',
      if absolute m then ''G90 ; absolute positioning'' else ''G91 ; relative positioning'',
      ''G0 Z'' @ toFixed numStr (Some (penUpZ m)) 3 @ '' ; pen up'',
      ''F'' @ numStr (feedTravel m),
      []]"

text \<open>Lines 151-154: the loop over the points after the first.\<close>

definition drawMoves :: "(real \<Rightarrow> string) \<Rightarrow> real option stroke \<Rightarrow> string list" where
  "drawMoves numStr stroke =
     map (\<lambda>i. let p = stroke ! i
              in ''G1 X'' @ toFixed numStr (pt_x p) 3 @ '' Y'' @ toFixed numStr (pt_y p) 3)
       [1..<length stroke]"

text \<open>Lines 143-158: what the callback of \<open>forEach\<close> pushes for the stroke at index \<open>idx\<close>.\<close>

definition strokeLines ::
  "(real \<Rightarrow> string) \<Rightarrow> motion \<Rightarrow> nat \<Rightarrow> real option stroke \<Rightarrow> string list" where
  "strokeLines numStr m idx stroke =
     (if length stroke = 0 then []
      else
        let p0 = stroke ! 0
        in [''; stroke '' @ numStr (real (idx + 1)),
            ''G0 X'' @ toFixed numStr (pt_x p0) 3 @ '' Y'' @ toFixed numStr (pt_y p0) 3 @ '' ; travel'',
            ''G0 Z'' @ toFixed numStr (Some (penDownZ m)) 3 @ '' ; pen down'',
            ''F'' @ numStr (feedDraw m)]
           @ drawMoves numStr stroke
           @ [''G0 Z'' @ toFixed numStr (Some (penUpZ m)) 3 @ '' ; pen up'',
              ''F'' @ numStr (feedTravel m)])"

definition gcodeLines ::
  "(real \<Rightarrow> string) \<Rightarrow> motion \<Rightarrow> real option stroke list \<Rightarrow> string list" where
  "gcodeLines numStr m strokes =
     header numStr m
     @ concat (map (\<lambda>(idx, stroke). strokeLines numStr m idx stroke) (enumerate 0 strokes))
     @ [[], ''; EOF'']"

text \<open>The handler: nothing without strokes (line 122), else the lines of the file.\<close>

definition downloadGcode_click :: "(real \<Rightarrow> string) \<Rightarrow> motion \<Rightarrow> app_state \<Rightarrow> string list option" where
  "downloadGcode_click numStr m s =
     (case lastStrokes s of
        None \<Rightarrow> None
      | Some strokes \<Rightarrow> Some (gcodeLines numStr m strokes))"

section \<open>Notions of the specification and of the proofs\<close>

text \<open>A Segment of row \<open>y\<close> from column \<open>a\<close> to column \<open>b\<close>.\<close>

definition seg :: "int \<Rightarrow> int \<Rightarrow> int \<Rightarrow> int stroke" where
  "seg y a b = [\<lparr>pt_x = a, pt_y = y\<rparr>, \<lparr>pt_x = b, pt_y = y\<rparr>]"

text \<open>
  A Run of a row of \<open>rotW\<close> columns (glossary: a maximal horizontal sequence of adjacent
  dark pixels): the columns \<open>a\<close> to \<open>b\<close> are dark, and the column before \<open>a\<close> and the
  column after \<open>b\<close>, where the row has one, are not.
\<close>

definition isMaxRun :: "(int \<Rightarrow> bool) \<Rightarrow> int \<Rightarrow> int \<Rightarrow> int \<Rightarrow> bool" where
  "isMaxRun dark rotW a b \<longleftrightarrow>
     0 \<le> a \<and> a \<le> b \<and> b < rotW \<and> (\<forall>c\<in>{a..b}. dark c) \<and>
     (a = 0 \<or> \<not> dark (a - 1)) \<and> (b = rotW - 1 \<or> \<not> dark (b + 1))"

text \<open>The runs that end at column \<open>x\<close> or later.\<close>

definition runsFrom :: "(int \<Rightarrow> bool) \<Rightarrow> int \<Rightarrow> int \<Rightarrow> (int \<times> int) set" where
  "runsFrom dark rotW x = {(a, b). isMaxRun dark rotW a b \<and> x \<le> b}"

text \<open>
  The invariant of the inner loop before column \<open>x\<close>: an open run holds an unbroken dark
  stretch from its first column \<open>s\<close>, which starts a Run, to \<open>x - 1\<close>; with no run open
  the column before \<open>x\<close> is not dark.
\<close>

definition wfState :: "(int \<Rightarrow> bool) \<Rightarrow> int \<Rightarrow> int \<Rightarrow> bool \<Rightarrow> int point list \<Rightarrow> bool" where
  "wfState dark y x inRun run \<longleftrightarrow>
     (if inRun then
        (\<exists>s. 0 \<le> s \<and> s < x \<and> run \<noteq> [] \<and> run ! 0 = \<lparr>pt_x = s, pt_y = y\<rparr> \<and>
             run ! (length run - 1) = \<lparr>pt_x = x - 1, pt_y = y\<rparr> \<and>
             (\<forall>c\<in>{s..x - 1}. dark c) \<and> (s = 0 \<or> \<not> dark (s - 1)))
      else (x = 0 \<or> \<not> dark (x - 1)))"

text \<open>
  The rows to scan from row \<open>y\<close> on (4.3: \<open>y = 0, spacing, 2 * spacing, ...\<close> while
  \<open>y < rotH\<close>), for a spacing of at least 1.
\<close>

function rowsFrom :: "int \<Rightarrow> int \<Rightarrow> int \<Rightarrow> int list" where
  "rowsFrom rotH lineSpacingPx y =
     (if y < rotH \<and> 1 \<le> lineSpacingPx then y # rowsFrom rotH lineSpacingPx (y + lineSpacingPx)
      else [])"
  by pat_completeness auto
termination
  by (relation "measure (\<lambda>(rotH, lineSpacingPx, y). nat (rotH - y))") auto

declare rowsFrom.simps [simp del]

text \<open>
  The order of the Strokes of one pass (section 3): by scan row, then by the column of the
  first point.
\<close>

definition rowThenX :: "int stroke \<Rightarrow> int stroke \<Rightarrow> bool" where
  "rowThenX s t \<longleftrightarrow>
     pt_y (s ! 0) < pt_y (t ! 0) \<or> (pt_y (s ! 0) = pt_y (t ! 0) \<and> pt_x (s ! 0) < pt_x (t ! 0))"

text \<open>
  The rotated bounding box as 4.2 writes it, over the real numbers, for an angle in
  radians.
\<close>

definition rotW_spec :: "int \<Rightarrow> int \<Rightarrow> real \<Rightarrow> int" where
  "rotW_spec W H \<theta> = \<lceil>real_of_int W * \<bar>cos \<theta>\<bar> + real_of_int H * \<bar>sin \<theta>\<bar>\<rceil>"

definition rotH_spec :: "int \<Rightarrow> int \<Rightarrow> real \<Rightarrow> int" where
  "rotH_spec W H \<theta> = \<lceil>real_of_int W * \<bar>sin \<theta>\<bar> + real_of_int H * \<bar>cos \<theta>\<bar>\<rceil>"

text \<open>
  The target size as 4.1 writes it, over the real numbers: the width
  \<open>round (W * r)\<close> floored at 1, and the height \<open>round (naturalHeight * scale)\<close> for the
  scale \<open>width / naturalWidth\<close>.
\<close>

definition targetW_spec :: "real \<Rightarrow> real \<Rightarrow> int" where
  "targetW_spec W r = max 1 (round (W * r))"

definition targetH_spec :: "real \<Rightarrow> real \<Rightarrow> nat \<Rightarrow> nat \<Rightarrow> int" where
  "targetH_spec W r naturalWidth' naturalHeight' =
     round (real naturalHeight' * (real_of_int (targetW_spec W r) / real naturalWidth'))"


text \<open>
  The inputs that section 7 calls invalid: a target width, a resolution or a line spacing
  that is not positive, a threshold outside 0 to 255, a pass count below 1, an image of
  natural width zero.
\<close>

definition invalidInput :: "inputs \<Rightarrow> image \<Rightarrow> bool" where
  "invalidInput inp image' \<longleftrightarrow>
     (case widthMM inp of None \<Rightarrow> False | Some w \<Rightarrow> w \<le> 0) \<or>
     (case pxPerMM inp of None \<Rightarrow> False | Some r \<Rightarrow> r \<le> 0) \<or>
     (case lineSpacingMM inp of None \<Rightarrow> False | Some l \<Rightarrow> l \<le> 0) \<or>
     (case threshold inp of None \<Rightarrow> False | Some t \<Rightarrow> t < 0 \<or> 255 < t) \<or>
     (case passes inp of None \<Rightarrow> False | Some n \<Rightarrow> n < 1) \<or>
     naturalWidth image' = 0"

text \<open>
  A Stroke in millimetres (4.4: every coordinate times \<open>mmPerPx\<close>), the product rounded
  to a double.
\<close>

definition toMM :: "real option \<Rightarrow> int stroke \<Rightarrow> real option stroke" where
  "toMM mmPerPx st =
     map (\<lambda>pt. \<lparr>pt_x = mulD (Some (real_of_int (pt_x pt))) mmPerPx,
                pt_y = mulD (Some (real_of_int (pt_y pt))) mmPerPx\<rparr>) st"

section \<open>Concrete inputs\<close>

text \<open>A loaded image of 12 by 1 pixels, and one of 10 by 10.\<close>

definition img12 :: image where
  "img12 = \<lparr>src = ''data:image/png;base64,AAAA'', naturalWidth = 12, naturalHeight = 1\<rparr>"

definition img10 :: image where
  "img10 = \<lparr>src = ''data:image/png;base64,BBBB'', naturalWidth = 10, naturalHeight = 10\<rparr>"

text \<open>The image before any file is chosen (line 30).\<close>

definition imgNew :: image where
  "imgNew = \<lparr>src = [], naturalWidth = 0, naturalHeight = 0\<rparr>"

text \<open>
  The RGBA bytes of a row of twelve pixels, black at the columns 2, 3, 4, 9 and 10 and
  white elsewhere.
\<close>

definition px :: "bool \<Rightarrow> 8 word list" where
  "px black = (if black then [0, 0, 0, 255] else [255, 255, 255, 255])"

definition row12 :: "8 word list" where
  "row12 = concat (map px
     [False, False, True, True, True, False, False, False, False, True, True, False])"

text \<open>
  A canvas that holds this row whatever is drawn, and one that is black all over and
  throws when the size asked for is NaN.
\<close>

definition rowCanvas :: canvas where
  "rowCanvas image' targetW targetH angleRad rotW rotH = Inr row12"

definition blackCanvas :: canvas where
  "blackCanvas image' targetW targetH angleRad rotW rotH =
     (case (rotW, rotH) of
        (Some w, Some h) \<Rightarrow> Inr (concat (replicate (nat (w * h)) (px True)))
      | _ \<Rightarrow> Inl ''The source width is 0.'')"

text \<open>
  Form values: 10 mm at 1 pixel per mm, lines 2 mm apart, threshold 128, one pass at angle
  0; a width of -5 mm; a width of 0.7 mm at 5 pixels per mm, the angle and the pass count
  left empty; and the width left empty.
\<close>

definition inputs10 :: inputs where
  "inputs10 = \<lparr>widthMM = Some 10, pxPerMM = Some 1, lineSpacingMM = Some 2,
                threshold = Some 128, angle = Some 0, passes = Some 1\<rparr>"

definition inputsNegWidth :: inputs where
  "inputsNegWidth = \<lparr>widthMM = Some (- 5), pxPerMM = Some 1, lineSpacingMM = Some 1,
                     threshold = Some 128, angle = Some 0, passes = Some 1\<rparr>"

definition inputs07 :: inputs where
  "inputs07 = \<lparr>widthMM = Some 0.7, pxPerMM = Some 5, lineSpacingMM = Some 1,
                threshold = Some 128, angle = None, passes = None\<rparr>"

definition inputsNoWidth :: inputs where
  "inputsNoWidth = \<lparr>widthMM = None, pxPerMM = Some 1, lineSpacingMM = Some 1,
                    threshold = Some 128, angle = Some 0, passes = Some 1\<rparr>"

text \<open>
  Motion values, and the text of a whole number that is not negative: its decimal digits.
\<close>

definition motion0 :: motion where
  "motion0 = \<lparr>penDownZ = 0, penUpZ = 5, feedTravel = 3000, feedDraw = 1500, absolute = True\<rparr>"

definition wholeStr :: "real \<Rightarrow> string" where
  "wholeStr v = decimal (nat \<lfloor>v\<rfloor>)"

text \<open>The state before the first click (lines 30-32).\<close>

definition state0 :: "image \<Rightarrow> app_state" where
  "state0 image' =
     \<lparr>img = image', lastStrokes = None,
      lastCanvasSize = \<lparr>cs_w = Some 0, cs_h = Some 0, cs_mmPerPx = Some 0, cs_angles = []\<rparr>,
      processBtn_disabled = False, downloadPNG_disabled = True, downloadGcode_disabled = True\<rparr>"

section \<open>Rounding to a double\<close>

lemma fl_0 [simp]: "fl 0 = 0"
  by (simp add: fl_def)

lemma ulp_exp_eq:
  assumes "2 powi n \<le> \<bar>x\<bar>" "\<bar>x\<bar> < 2 powi (n + 1)"
  shows "ulp_exp x = max n (- 1022) - 52"
proof -
  have "(0::real) < 2 powi n" by simp
  then have pos: "0 < \<bar>x\<bar>" using assms(1) by linarith
  have a: "(2::real) powr (real_of_int n) = 2 powi n"
    by (simp add: powr_real_of_int')
  have b: "(2::real) powr (real_of_int n + 1) = 2 powi (n + 1)"
    using powr_real_of_int' [of 2 "n + 1"] by simp
  have "2 powr (real_of_int n) \<le> \<bar>x\<bar> \<and> \<bar>x\<bar> < 2 powr (real_of_int n + 1)"
    using assms unfolding a b by simp
  then have "\<lfloor>log 2 \<bar>x\<bar>\<rfloor> = n"
    using floor_log_eq_powr_iff [of "\<bar>x\<bar>" 2 n] pos by simp
  then show ?thesis unfolding ulp_exp_def by simp
qed

lemma fl_eval:
  assumes "2 powi n \<le> \<bar>x\<bar>" "\<bar>x\<bar> < 2 powi (n + 1)" "- 1022 \<le> n"
  shows "fl x = of_int (rne (x / 2 powi (n - 52))) * 2 powi (n - 52)"
proof -
  have "(0::real) < 2 powi n" by simp
  then have "0 < \<bar>x\<bar>" using assms(1) by linarith
  then have "x \<noteq> 0" by auto
  moreover have "ulp_exp x = n - 52"
    using ulp_exp_eq [OF assms(1,2)] assms(3) by simp
  ultimately show ?thesis unfolding fl_def by simp
qed


lemma rne_of_int [simp]: "rne (of_int m) = m"
  by (simp add: rne_def)

lemma rne_floor: "rne x = \<lfloor>x\<rfloor> \<or> rne x = \<lfloor>x\<rfloor> + 1"
  by (simp add: rne_def Let_def)

lemma rne_error: "\<bar>of_int (rne x) - x\<bar> \<le> 1 / 2"
proof -
  define f where "f = \<lfloor>x\<rfloor>"
  have a: "of_int f \<le> x" "x < of_int f + 1" unfolding f_def by linarith+
  consider "x - of_int f < 1 / 2" | "1 / 2 < x - of_int f" | "x - of_int f = 1 / 2"
    by linarith
  then show ?thesis
  proof cases
    case 1
    then have "rne x = f" unfolding rne_def Let_def f_def by simp
    then show ?thesis using 1 a by simp
  next
    case 2
    then have "rne x = f + 1" unfolding rne_def Let_def f_def by simp
    then show ?thesis using 2 a by simp
  next
    case 3
    then have "rne x = f \<or> rne x = f + 1" unfolding rne_def Let_def f_def by simp
    then show ?thesis using 3 a by auto
  qed
qed

lemma rne_mono:
  assumes "x \<le> y"
  shows "rne x \<le> rne y"
proof (cases "\<lfloor>x\<rfloor> = \<lfloor>y\<rfloor>")
  case True
  then show ?thesis
    using assms unfolding rne_def Let_def by auto
next
  case False
  then have "\<lfloor>x\<rfloor> < \<lfloor>y\<rfloor>"
    using floor_mono [OF assms] by linarith
  moreover have "rne x \<le> \<lfloor>x\<rfloor> + 1" "\<lfloor>y\<rfloor> \<le> rne y"
    using rne_floor [of x] rne_floor [of y] by auto
  ultimately show ?thesis by linarith
qed

lemma rne_minus: "rne (- x) = - rne x"
proof (cases "x \<in> \<int>")
  case True
  then obtain m where "x = of_int m" by (auto simp: Ints_def)
  then have "- x = of_int (- m)" by simp
  then show ?thesis
    using \<open>x = of_int m\<close> by (simp only: rne_of_int)
next
  case False
  then have f: "\<lfloor>- x\<rfloor> = - \<lfloor>x\<rfloor> - 1"
    by (simp add: floor_minus ceiling_altdef Ints_def)
       (metis Ints_of_int False)
  have "of_int \<lfloor>x\<rfloor> \<le> x" "x < of_int \<lfloor>x\<rfloor> + 1" by linarith+
  then show ?thesis
    unfolding rne_def Let_def f by (auto simp: algebra_simps)
qed

lemma ulp_exp_minus: "ulp_exp (- x) = ulp_exp x"
  by (simp add: ulp_exp_def)

lemma fl_minus: "fl (- x) = - fl x"
  unfolding fl_def ulp_exp_minus using rne_minus [of "x / 2 powi ulp_exp x"] by simp

lemma fl_nonneg:
  assumes "0 \<le> x"
  shows "0 \<le> fl x"
proof -
  have "0 \<le> x / 2 powi ulp_exp x" using assms by simp
  then have "rne 0 \<le> rne (x / 2 powi ulp_exp x)" by (rule rne_mono)
  then have "0 \<le> rne (x / 2 powi ulp_exp x)"
    using rne_of_int [of 0] by simp
  then show ?thesis unfolding fl_def by simp
qed

lemma log2_bounds:
  assumes "0 < x"
  shows "2 powi \<lfloor>log 2 x\<rfloor> \<le> x \<and> x < 2 powi (\<lfloor>log 2 x\<rfloor> + 1)"
proof -
  have "2 powr real_of_int \<lfloor>log 2 x\<rfloor> \<le> x \<and> x < 2 powr real_of_int (\<lfloor>log 2 x\<rfloor> + 1)"
    using floor_log_eq_powr_iff [of x 2 "\<lfloor>log 2 x\<rfloor>"] assms by simp
  then show ?thesis
    by (simp only: powr_real_of_int' [of 2, simplified])
qed

lemma rne_two_power:
  assumes "0 \<le> n"
  shows "real_of_int (rne (2 powi n)) = 2 powi n"
proof -
  have "(2::real) powi n = of_int (2 ^ nat n)"
    using assms by (simp add: power_int_nonneg_exp)
  then show ?thesis by (simp only: rne_of_int)
qed

text \<open>The rounding of a positive number stays in its binade, the ends included.\<close>

lemma fl_pos_upper:
  assumes "0 < x"
  shows "fl x \<le> 2 powi (max \<lfloor>log 2 x\<rfloor> (- 1022) + 1)"
proof -
  define E where "E = max \<lfloor>log 2 x\<rfloor> (- 1022)"
  have u: "ulp_exp x = E - 52" unfolding ulp_exp_def E_def using assms by simp
  have "x < 2 powi (\<lfloor>log 2 x\<rfloor> + 1)" using log2_bounds [OF assms] by simp
  also have "\<dots> \<le> 2 powi (E + 1)"
    unfolding E_def by (intro power_int_increasing) auto
  finally have "x < 2 powi (E + 1)" .
  moreover have e: "(2::real) powi (E + 1) = 2 powi 53 * 2 powi (E - 52)"
  proof -
    have "E + 1 = 53 + (E - 52)" by simp
    then have "(2::real) powi (E + 1) = 2 powi (53 + (E - 52))" by (rule arg_cong)
    also have "\<dots> = 2 powi 53 * 2 powi (E - 52)" by (rule power_int_add) simp
    finally show ?thesis .
  qed
  ultimately have "x / 2 powi (E - 52) \<le> 2 powi 53"
    by (simp add: pos_divide_le_eq)
  then have "rne (x / 2 powi (E - 52)) \<le> rne (2 powi 53)" by (rule rne_mono)
  then have "real_of_int (rne (x / 2 powi (E - 52))) \<le> 2 powi 53"
    using rne_two_power [of 53] by linarith
  then have "real_of_int (rne (x / 2 powi (E - 52))) * 2 powi (E - 52) \<le> 2 powi 53 * 2 powi (E - 52)"
    by (intro mult_right_mono) simp_all
  then show ?thesis
    using assms u e unfolding fl_def E_def [symmetric] by simp
qed

lemma fl_pos_lower:
  assumes "0 < x" "- 1022 \<le> \<lfloor>log 2 x\<rfloor>"
  shows "2 powi \<lfloor>log 2 x\<rfloor> \<le> fl x"
proof -
  define E where "E = \<lfloor>log 2 x\<rfloor>"
  have u: "ulp_exp x = E - 52" unfolding ulp_exp_def E_def using assms by simp
  have "2 powi E \<le> x" using log2_bounds [OF assms(1)] unfolding E_def by simp
  moreover have e: "(2::real) powi E = 2 powi 52 * 2 powi (E - 52)"
  proof -
    have "E = 52 + (E - 52)" by simp
    then have "(2::real) powi E = 2 powi (52 + (E - 52))" by (rule arg_cong)
    also have "\<dots> = 2 powi 52 * 2 powi (E - 52)" by (rule power_int_add) simp
    finally show ?thesis .
  qed
  ultimately have "2 powi 52 \<le> x / 2 powi (E - 52)"
    by (simp add: pos_le_divide_eq)
  then have "rne (2 powi 52) \<le> rne (x / 2 powi (E - 52))" by (rule rne_mono)
  then have "2 powi 52 \<le> real_of_int (rne (x / 2 powi (E - 52)))"
    using rne_two_power [of 52] by linarith
  then have "2 powi 52 * 2 powi (E - 52) \<le> real_of_int (rne (x / 2 powi (E - 52))) * 2 powi (E - 52)"
    by (intro mult_right_mono) simp_all
  then show ?thesis
    using assms u e unfolding fl_def E_def [symmetric] by simp
qed

lemma fl_mono_pos:
  assumes "0 < x" "x \<le> y"
  shows "fl x \<le> fl y"
proof -
  define a where "a = \<lfloor>log 2 x\<rfloor>"
  define b where "b = \<lfloor>log 2 y\<rfloor>"
  define Ex where "Ex = max a (- 1022)"
  define Ey where "Ey = max b (- 1022)"
  have y: "0 < y" using assms by linarith
  have "log 2 x \<le> log 2 y" using assms by simp
  then have ab: "a \<le> b" unfolding a_def b_def by (rule floor_mono)
  then have le: "Ex \<le> Ey" unfolding Ex_def Ey_def by simp
  have ux: "ulp_exp x = Ex - 52" and uy: "ulp_exp y = Ey - 52"
    unfolding ulp_exp_def Ex_def Ey_def a_def b_def using assms y by simp_all
  show ?thesis
  proof (cases "Ex = Ey")
    case True
    have "x / 2 powi (Ex - 52) \<le> y / 2 powi (Ex - 52)"
      using assms(2) by (simp add: divide_right_mono)
    then have "rne (x / 2 powi (Ex - 52)) \<le> rne (y / 2 powi (Ex - 52))" by (rule rne_mono)
    then have "real_of_int (rne (x / 2 powi (Ex - 52))) * 2 powi (Ex - 52)
        \<le> real_of_int (rne (y / 2 powi (Ex - 52))) * 2 powi (Ex - 52)"
      by (intro mult_right_mono) simp_all
    then show ?thesis
      using assms(1) y ux uy True unfolding fl_def by simp
  next
    case False
    then have lt: "Ex < Ey" using le by simp
    then have "- 1022 \<le> b \<and> Ey = b"
      unfolding Ex_def Ey_def by linarith
    then have ny: "- 1022 \<le> \<lfloor>log 2 y\<rfloor>" "Ey = \<lfloor>log 2 y\<rfloor>"
      unfolding b_def by simp_all
    have "fl x \<le> 2 powi (Ex + 1)"
      using fl_pos_upper [OF assms(1)] unfolding Ex_def a_def by simp
    also have "\<dots> \<le> 2 powi Ey"
      using lt by (intro power_int_increasing) auto
    also have "\<dots> \<le> fl y"
      using fl_pos_lower [OF y ny(1)] ny(2) by simp
    finally show ?thesis .
  qed
qed

lemma fl_mono:
  assumes "x \<le> y"
  shows "fl x \<le> fl y"
proof -
  consider "0 < x" | "x \<le> 0" "0 \<le> y" | "y < 0" by linarith
  then show ?thesis
  proof cases
    case 1
    then show ?thesis using fl_mono_pos assms by blast
  next
    case 2
    have "0 \<le> fl (- x)" using 2(1) by (intro fl_nonneg) simp
    then have "fl x \<le> 0" by (simp add: fl_minus)
    then show ?thesis using fl_nonneg [OF 2(2)] by linarith
  next
    case 3
    then have "fl (- y) \<le> fl (- x)" using assms by (intro fl_mono_pos) simp_all
    then show ?thesis by (simp add: fl_minus)
  qed
qed

text \<open>Every integer up to \<open>2^53\<close> in size is a double.\<close>

lemma fl_int:
  assumes "\<bar>n\<bar> \<le> 2 ^ 53"
  shows "fl (of_int n) = of_int n"
proof -
  have pos: "fl (of_int m) = of_int m" if m: "0 < m" "m \<le> 2 ^ 53" for m :: int
  proof -
    define x :: real where "x = of_int m"
    define k where "k = \<lfloor>log 2 x\<rfloor>"
    have x: "0 < x" "1 \<le> x" "x \<le> 2 ^ 53" unfolding x_def using m by simp_all
    have kb: "2 powi k \<le> x" "x < 2 powi (k + 1)"
      using log2_bounds [OF x(1)] unfolding k_def by simp_all
    have "0 \<le> log 2 x" using x(2) by simp
    then have k0: "0 \<le> k" unfolding k_def by simp
    have "(2::real) powi k \<le> 2 powi 53" using kb(1) x(3) by simp
    then have k53: "k \<le> 53"
      using power_int_le_imp_le_exp [of "2::real" k 53] by simp
    have "\<bar>x\<bar> = x" using x(1) by simp
    then have u: "ulp_exp x = k - 52"
      unfolding ulp_exp_def k_def using k0 unfolding k_def by simp
    have "\<exists>j. x / 2 powi (k - 52) = of_int j"
    proof (cases "k \<le> 52")
      case True
      have "x / 2 powi (k - 52) = x * 2 powi (52 - k)"
        using power_int_minus [of "2::real" "k - 52"] by (simp add: field_simps)
      also have "\<dots> = of_int (m * 2 ^ nat (52 - k))"
        using True unfolding x_def by (simp add: power_int_nonneg_exp)
      finally show ?thesis by blast
    next
      case False
      then have k: "k = 53" using k53 by simp
      then have "(2::real) ^ 53 \<le> x" using kb(1) by simp
      then have "x = 2 ^ 53" using x(3) by simp
      then have "x / 2 powi (k - 52) = of_int (2 ^ 52)" using k by simp
      then show ?thesis by blast
    qed
    then obtain j where j: "x / 2 powi (k - 52) = of_int j" by blast
    have "fl x = of_int (rne (x / 2 powi (k - 52))) * 2 powi (k - 52)"
      unfolding fl_def u using x(1) by simp
    also have "\<dots> = (x / 2 powi (k - 52)) * 2 powi (k - 52)"
      unfolding j by (simp only: rne_of_int)
    also have "\<dots> = x" by simp
    finally show ?thesis unfolding x_def .
  qed
  consider "n = 0" | "0 < n" | "n < 0" by linarith
  then show ?thesis
  proof cases
    case 1
    then show ?thesis by simp
  next
    case 2
    then show ?thesis using pos [of n] assms by simp
  next
    case 3
    then have "fl (of_int (- n)) = of_int (- n)" using pos [of "- n"] assms by simp
    then show ?thesis using fl_minus [of "of_int n"] by simp
  qed
qed

lemma fl_Ints: "x \<in> \<int> \<Longrightarrow> \<bar>x\<bar> \<le> 2 ^ 53 \<Longrightarrow> fl x = x"
proof -
  assume a: "x \<in> \<int>" "\<bar>x\<bar> \<le> 2 ^ 53"
  then obtain n where n: "x = of_int n" by (auto simp: Ints_def)
  then have "real_of_int \<bar>n\<bar> \<le> real_of_int (2 ^ 53)" using a by simp
  then have "\<bar>n\<bar> \<le> 2 ^ 53" by (simp only: of_int_le_iff)
  then show ?thesis using fl_int n by simp
qed

text \<open>The number \<open>pi\<close> to sixteen decimals, from Machin's formula.\<close>

lemma arctan_bounds:
  assumes "0 \<le> x" "x \<le> 1"
  shows "(\<Sum>k<2 * n. (- 1) ^ k * (1 / real (k * 2 + 1) * x ^ (k * 2 + 1))) \<le> arctan x"
    and "arctan x \<le> (\<Sum>k<2 * n + 1. (- 1) ^ k * (1 / real (k * 2 + 1) * x ^ (k * 2 + 1)))"
proof -
  define a where "a k = 1 / real (k * 2 + 1) * x ^ (k * 2 + 1)" for k
  have z: "a \<longlonglongrightarrow> 0"
    unfolding a_def using zeroseq_arctan_series [of x] assms by simp
  have nn: "0 \<le> a k" for k
    unfolding a_def using assms by simp
  have dec: "a (Suc k) \<le> a k" for k
  proof -
    have "x ^ (Suc k * 2 + 1) \<le> x ^ (k * 2 + 1)"
      using assms by (intro power_decreasing) simp_all
    moreover have "1 / real (Suc k * 2 + 1) \<le> 1 / real (k * 2 + 1)"
      by (simp add: field_simps)
    ultimately show ?thesis
      unfolding a_def using assms by (intro mult_mono) simp_all
  qed
  have s: "arctan x = (\<Sum>k. (- 1) ^ k * a k)"
    unfolding a_def using arctan_series [of x] assms by simp
  show "(\<Sum>k<2 * n. (- 1) ^ k * (1 / real (k * 2 + 1) * x ^ (k * 2 + 1))) \<le> arctan x"
    using summable_Leibniz'(2) [OF z nn dec, of n] unfolding s a_def .
  show "arctan x \<le> (\<Sum>k<2 * n + 1. (- 1) ^ k * (1 / real (k * 2 + 1) * x ^ (k * 2 + 1)))"
    using summable_Leibniz'(4) [OF z nn dec, of n] unfolding s a_def .
qed

lemma pi_bounds: "31415926535897932 / 10 ^ 16 < pi" "pi < 31415926535897933 / 10 ^ 16"
proof -
  have m: "pi = 16 * arctan (1 / 5) - 4 * arctan (1 / 239)"
    using machin by simp
  have l5: "(\<Sum>k<2 * 8. (- 1) ^ k * (1 / real (k * 2 + 1) * (1 / 5) ^ (k * 2 + 1))) \<le> arctan (1 / 5)"
    by (rule arctan_bounds) simp_all
  have u5: "arctan (1 / 5) \<le> (\<Sum>k<2 * 8 + 1. (- 1) ^ k * (1 / real (k * 2 + 1) * (1 / 5) ^ (k * 2 + 1)))"
    by (rule arctan_bounds) simp_all
  have l239: "(\<Sum>k<2 * 2. (- 1) ^ k * (1 / real (k * 2 + 1) * (1 / 239) ^ (k * 2 + 1))) \<le> arctan (1 / 239)"
    by (rule arctan_bounds) simp_all
  have u239: "arctan (1 / 239) \<le> (\<Sum>k<2 * 2 + 1. (- 1) ^ k * (1 / real (k * 2 + 1) * (1 / 239) ^ (k * 2 + 1)))"
    by (rule arctan_bounds) simp_all
  show "31415926535897932 / 10 ^ 16 < pi"
    using l5 u239 unfolding m by (simp add: eval_nat_numeral field_simps)
  show "pi < 31415926535897933 / 10 ^ 16"
    using u5 l239 unfolding m by (simp add: eval_nat_numeral field_simps)
qed

section \<open>The column loop and the row loop\<close>

lemma isMaxRun_start_unique:
  "isMaxRun dark rotW a b \<Longrightarrow> isMaxRun dark rotW a' b \<Longrightarrow> a = a'"
proof -
  have "\<not> a < a'" if "isMaxRun dark rotW a b" "isMaxRun dark rotW a' b" for a a'
  proof
    assume "a < a'"
    then have "a' - 1 \<in> {a..b}" "a' \<noteq> 0"
      using that unfolding isMaxRun_def by auto
    then show False
      using that unfolding isMaxRun_def by blast
  qed
  then show "isMaxRun dark rotW a b \<Longrightarrow> isMaxRun dark rotW a' b \<Longrightarrow> a = a'"
    by (meson linorder_neqE_linordered_idom)
qed


lemma runsFrom_skip:
  assumes "x < rotW" "dark x \<or> x = 0 \<or> \<not> dark (x - 1)"
  shows "runsFrom dark rotW (x - 1) = runsFrom dark rotW x"
proof -
  have "\<not> isMaxRun dark rotW a (x - 1)" for a
    using assms unfolding isMaxRun_def by auto
  then have "isMaxRun dark rotW a b \<Longrightarrow> x - 1 \<le> b \<Longrightarrow> x \<le> b" for a b
    by (cases "b = x - 1") auto
  then show ?thesis unfolding runsFrom_def by auto
qed


lemma runsFrom_close:
  assumes "x \<le> rotW" "x = rotW \<or> \<not> dark x" "0 \<le> s" "s < x" "\<forall>c\<in>{s..x - 1}. dark c"
    "s = 0 \<or> \<not> dark (s - 1)"
  shows "runsFrom dark rotW (x - 1) = insert (s, x - 1) (runsFrom dark rotW x)"
proof -
  have "x - 1 = rotW - 1 \<or> \<not> dark (x - 1 + 1)"
    using assms(2) by auto
  then have m: "isMaxRun dark rotW s (x - 1)"
    unfolding isMaxRun_def using assms(1,3,4,5,6) by simp
  show ?thesis
  proof (intro set_eqI iffI)
    fix p assume p: "p \<in> runsFrom dark rotW (x - 1)"
    obtain a b where ab: "p = (a, b)" by (cases p)
    have r: "isMaxRun dark rotW a b" "x - 1 \<le> b"
      using p ab unfolding runsFrom_def by simp_all
    show "p \<in> insert (s, x - 1) (runsFrom dark rotW x)"
    proof (cases "b = x - 1")
      case True
      then have "a = s" using isMaxRun_start_unique [of dark rotW a "x - 1" s] r(1) m by simp
      then show ?thesis using True ab by simp
    next
      case False
      then have "x \<le> b" using r(2) by simp
      then show ?thesis using r(1) ab unfolding runsFrom_def by simp
    qed
  next
    fix p assume p: "p \<in> insert (s, x - 1) (runsFrom dark rotW x)"
    obtain a b where ab: "p = (a, b)" by (cases p)
    show "p \<in> runsFrom dark rotW (x - 1)"
    proof (cases "p = (s, x - 1)")
      case True
      then show ?thesis using m unfolding runsFrom_def by simp
    next
      case False
      then have "isMaxRun dark rotW a b \<and> x \<le> b"
        using p ab unfolding runsFrom_def by blast
      then show ?thesis using ab unfolding runsFrom_def by simp
    qed
  qed
qed

lemma runsFrom_end: "runsFrom dark rotW rotW = {}"
  unfolding runsFrom_def isMaxRun_def by auto


lemma runsFrom_after:
  assumes "(a, b) \<in> runsFrom dark rotW x" "\<not> dark x" "0 \<le> x"
  shows "x < a"
proof (rule ccontr)
  assume "\<not> x < a"
  then have "x \<in> {a..b}" using assms(1) unfolding runsFrom_def by auto
  then show False using assms unfolding runsFrom_def isMaxRun_def by auto
qed



lemma scanCols_runs:
  assumes "0 \<le> x" "x \<le> rotW" "wfState (\<lambda>c. isDark rotW rotH data th c y) y x inRun run"
  shows "\<exists>new. closeRun (scanCols rotW rotH data th y x (inRun, run, strokes))
            = strokes @ map (\<lambda>(a, b). seg y a b) new \<and>
          set new = runsFrom (\<lambda>c. isDark rotW rotH data th c y) rotW (x - 1) \<and>
          sorted_wrt (\<lambda>p q. snd p + 1 < fst q) new"
  using assms
proof (induction "nat (rotW - x)" arbitrary: x inRun run strokes)
  case 0
  let ?dark = "\<lambda>c. isDark rotW rotH data th c y"
  let ?R = "runsFrom ?dark rotW"
  have xe: "x = rotW" using 0 by simp
  show ?case
  proof (cases inRun)
    case True
    then obtain s where s: "0 \<le> s" "s < x" "run \<noteq> []" "run ! 0 = \<lparr>pt_x = s, pt_y = y\<rparr>"
      "run ! (length run - 1) = \<lparr>pt_x = x - 1, pt_y = y\<rparr>"
      "\<forall>c\<in>{s..x - 1}. ?dark c" "s = 0 \<or> \<not> ?dark (s - 1)"
      using "0.prems"(3) unfolding wfState_def by auto
    have "?R (x - 1) = {(s, x - 1)}"
      using runsFrom_close [of x rotW ?dark s] s xe runsFrom_end [of ?dark rotW] by simp
    moreover have "closeRun (scanCols rotW rotH data th y x (inRun, run, strokes))
        = strokes @ map (\<lambda>(a, b). seg y a b) [(s, x - 1)]"
      using True s xe by (subst scanCols.simps) (simp add: seg_def Suc_le_eq)
    ultimately show ?thesis
      by (intro exI [of _ "[(s, x - 1)]"]) simp
  next
    case False
    then have "x = 0 \<or> \<not> ?dark (x - 1)"
      using "0.prems"(3) unfolding wfState_def by simp
    then have "?R (x - 1) = {}"
      using xe unfolding runsFrom_def isMaxRun_def by auto
    moreover have "closeRun (scanCols rotW rotH data th y x (inRun, run, strokes)) = strokes"
      using False xe by (subst scanCols.simps) simp
    ultimately show ?thesis
      by (intro exI [of _ "[]"]) simp
  qed
next
  case (Suc n)
  let ?dark = "\<lambda>c. isDark rotW rotH data th c y"
  let ?R = "runsFrom ?dark rotW"
  have lt: "x < rotW" and n: "n = nat (rotW - (x + 1))" and x1: "0 \<le> x + 1" "x + 1 \<le> rotW"
    using Suc.hyps(2) Suc.prems(1) by auto
  note IH = Suc.hyps(1) [OF n x1]
  show ?case
  proof (cases "?dark x")
    case dk: True
    have skip: "?R (x - 1) = ?R x"
      using runsFrom_skip [of x rotW ?dark] lt dk by simp
    show ?thesis
    proof (cases inRun)
      case False
      have wf: "wfState ?dark y (x + 1) True [\<lparr>pt_x = x, pt_y = y\<rparr>]"
        using Suc.prems False dk unfolding wfState_def by (auto intro!: exI [of _ x])
      obtain new where new: "closeRun (scanCols rotW rotH data th y (x + 1)
            (True, [\<lparr>pt_x = x, pt_y = y\<rparr>], strokes)) = strokes @ map (\<lambda>(a, b). seg y a b) new"
          "set new = ?R (x + 1 - 1)" "sorted_wrt (\<lambda>p q. snd p + 1 < fst q) new"
        using IH [OF wf, of strokes] by blast
      have "scanCols rotW rotH data th y x (inRun, run, strokes)
          = scanCols rotW rotH data th y (x + 1) (True, [\<lparr>pt_x = x, pt_y = y\<rparr>], strokes)"
        using lt dk False by (subst scanCols.simps) simp
      then show ?thesis
        using new skip by (intro exI [of _ new]) simp
    next
      case True
      then obtain s where s: "0 \<le> s" "s < x" "run \<noteq> []" "run ! 0 = \<lparr>pt_x = s, pt_y = y\<rparr>"
        "run ! (length run - 1) = \<lparr>pt_x = x - 1, pt_y = y\<rparr>"
        "\<forall>c\<in>{s..x - 1}. ?dark c" "s = 0 \<or> \<not> ?dark (s - 1)"
        using Suc.prems(3) unfolding wfState_def by auto
      have "\<forall>c\<in>{s..x + 1 - 1}. ?dark c"
      proof
        fix c assume "c \<in> {s..x + 1 - 1}"
        then have "c \<in> {s..x - 1} \<or> c = x" by auto
        then show "?dark c" using s(6) dk by auto
      qed
      then have wf: "wfState ?dark y (x + 1) inRun (run @ [\<lparr>pt_x = x, pt_y = y\<rparr>])"
        using s True unfolding wfState_def
        by (auto intro!: exI [of _ s] simp: nth_append)
      obtain new where new: "closeRun (scanCols rotW rotH data th y (x + 1)
            (inRun, run @ [\<lparr>pt_x = x, pt_y = y\<rparr>], strokes)) = strokes @ map (\<lambda>(a, b). seg y a b) new"
          "set new = ?R (x + 1 - 1)" "sorted_wrt (\<lambda>p q. snd p + 1 < fst q) new"
        using IH [OF wf, of strokes] by blast
      have "scanCols rotW rotH data th y x (inRun, run, strokes)
          = scanCols rotW rotH data th y (x + 1) (inRun, run @ [\<lparr>pt_x = x, pt_y = y\<rparr>], strokes)"
        using lt dk True by (subst scanCols.simps) simp
      then show ?thesis
        using new skip by (intro exI [of _ new]) simp
    qed
  next
    case nd: False
    have wf: "wfState ?dark y (x + 1) False []"
      using nd unfolding wfState_def by simp
    show ?thesis
    proof (cases inRun)
      case True
      then obtain s where s: "0 \<le> s" "s < x" "run \<noteq> []" "run ! 0 = \<lparr>pt_x = s, pt_y = y\<rparr>"
        "run ! (length run - 1) = \<lparr>pt_x = x - 1, pt_y = y\<rparr>"
        "\<forall>c\<in>{s..x - 1}. ?dark c" "s = 0 \<or> \<not> ?dark (s - 1)"
        using Suc.prems(3) unfolding wfState_def by auto
      let ?strokes' = "if length run \<ge> 1 then strokes @ [[run ! 0, run ! (length run - 1)]]
               else strokes"
      have st: "?strokes' = strokes @ [seg y s (x - 1)]"
        using s by (simp add: seg_def Suc_le_eq)
      obtain new where new: "closeRun (scanCols rotW rotH data th y (x + 1)
            (False, [], ?strokes')) = ?strokes' @ map (\<lambda>(a, b). seg y a b) new"
          "set new = ?R (x + 1 - 1)" "sorted_wrt (\<lambda>p q. snd p + 1 < fst q) new"
        using IH [OF wf, of ?strokes'] by blast
      have R: "?R (x - 1) = insert (s, x - 1) (?R x)"
        using runsFrom_close [of x rotW ?dark s] s lt nd by simp
      have "\<forall>q\<in>set new. x < fst q"
        using runsFrom_after [of _ _ ?dark rotW x] new(2) nd Suc.prems(1) by auto
      then have "sorted_wrt (\<lambda>p q. snd p + 1 < fst q) ((s, x - 1) # new)"
        using new(3) by simp
      moreover have "scanCols rotW rotH data th y x (inRun, run, strokes)
          = scanCols rotW rotH data th y (x + 1) (False, [], ?strokes')"
        using lt nd True by (subst scanCols.simps) simp
      then have "closeRun (scanCols rotW rotH data th y x (inRun, run, strokes))
          = strokes @ map (\<lambda>(a, b). seg y a b) ((s, x - 1) # new)"
        using new(1) st by simp
      moreover have "set ((s, x - 1) # new) = ?R (x - 1)"
        using R new(2) by simp
      ultimately show ?thesis by blast
    next
      case False
      have wf': "wfState ?dark y (x + 1) inRun run"
        using nd False unfolding wfState_def by simp
      obtain new where new: "closeRun (scanCols rotW rotH data th y (x + 1)
            (inRun, run, strokes)) = strokes @ map (\<lambda>(a, b). seg y a b) new"
          "set new = ?R (x + 1 - 1)" "sorted_wrt (\<lambda>p q. snd p + 1 < fst q) new"
        using IH [OF wf', of strokes] by blast
      have "x = 0 \<or> \<not> ?dark (x - 1)"
        using Suc.prems(3) False unfolding wfState_def by simp
      then have "?R (x - 1) = ?R x"
        using runsFrom_skip [of x rotW ?dark] lt by auto
      moreover have "scanCols rotW rotH data th y x (inRun, run, strokes)
          = scanCols rotW rotH data th y (x + 1) (inRun, run, strokes)"
        using lt nd False by (subst scanCols.simps) simp
      ultimately show ?thesis
        using new False by (intro exI [of _ new]) simp
    qed
  qed
qed

lemma scanRow_runs:
  "\<exists>new. scanRow rotW rotH data th y strokes = strokes @ map (\<lambda>(a, b). seg y a b) new \<and>
         set new = {(a, b). isMaxRun (\<lambda>c. isDark rotW rotH data th c y) rotW a b} \<and>
         sorted_wrt (\<lambda>p q. snd p + 1 < fst q) new"
proof (cases "0 \<le> rotW")
  case True
  have "wfState (\<lambda>c. isDark rotW rotH data th c y) y 0 False []"
    unfolding wfState_def by simp
  from scanCols_runs [OF _ True this, of strokes]
  obtain new where new: "closeRun (scanCols rotW rotH data th y 0 (False, [], strokes))
        = strokes @ map (\<lambda>(a, b). seg y a b) new"
      "set new = runsFrom (\<lambda>c. isDark rotW rotH data th c y) rotW (0 - 1)"
      "sorted_wrt (\<lambda>p q. snd p + 1 < fst q) new"
    by auto
  have "runsFrom (\<lambda>c. isDark rotW rotH data th c y) rotW (0 - 1)
      = {(a, b). isMaxRun (\<lambda>c. isDark rotW rotH data th c y) rotW a b}"
    unfolding runsFrom_def isMaxRun_def by auto
  then show ?thesis
    using new unfolding scanRow_def by (intro exI [of _ new]) simp
next
  case False
  then have "scanRow rotW rotH data th y strokes = strokes"
    unfolding scanRow_def by (subst scanCols.simps) simp
  moreover have "{(a, b). isMaxRun (\<lambda>c. isDark rotW rotH data th c y) rotW a b} = {}"
    using False unfolding isMaxRun_def by auto
  ultimately show ?thesis
    by (intro exI [of _ "[]"]) simp
qed

lemma runs_strict:
  fixes xs :: "(int \<times> int) list"
  assumes "sorted_wrt (\<lambda>p q. snd p + 1 < fst q) xs" "\<forall>p\<in>set xs. fst p \<le> snd p"
  shows "sorted_wrt (<) (map fst xs)"
proof -
  have "sorted_wrt (\<lambda>p q. fst p < fst q) xs"
  proof (rule sorted_wrt_mono_rel [OF _ assms(1)])
    fix p q assume "p \<in> set xs" "q \<in> set xs" "snd p + 1 < fst q"
    moreover from this have "fst p \<le> snd p" using assms(2) by blast
    ultimately show "fst p < fst q" by linarith
  qed
  then show ?thesis
    by (simp add: sorted_wrt_map)
qed

lemma runs_unique:
  fixes xs ys :: "(int \<times> int) list"
  assumes "sorted_wrt (\<lambda>p q. snd p + 1 < fst q) xs" "sorted_wrt (\<lambda>p q. snd p + 1 < fst q) ys"
    "set xs = set ys" "\<forall>p\<in>set xs. fst p \<le> snd p"
  shows "xs = ys"
proof -
  have sx: "sorted_wrt (<) (map fst xs)" and sy: "sorted_wrt (<) (map fst ys)"
    using runs_strict assms by auto
  then have "map fst xs = map fst ys"
    using assms(3) by (intro strict_sorted_equal) simp_all
  moreover have "inj_on fst (set xs \<union> set ys)"
    using sx assms(3) by (simp add: strict_sorted_iff distinct_map)
  ultimately show ?thesis
    by (simp add: inj_on_map_eq_map)
qed

lemma isMaxRun_le: "isMaxRun dark rotW a b \<Longrightarrow> a \<le> b"
  unfolding isMaxRun_def by simp

lemma scanRow_append:
  "scanRow rotW rotH data th y strokes = strokes @ scanRow rotW rotH data th y []"
proof -
  obtain new where new: "scanRow rotW rotH data th y strokes = strokes @ map (\<lambda>(a, b). seg y a b) new"
      "set new = {(a, b). isMaxRun (\<lambda>c. isDark rotW rotH data th c y) rotW a b}"
      "sorted_wrt (\<lambda>p q. snd p + 1 < fst q) new"
    using scanRow_runs by blast
  obtain new' where new': "scanRow rotW rotH data th y [] = [] @ map (\<lambda>(a, b). seg y a b) new'"
      "set new' = {(a, b). isMaxRun (\<lambda>c. isDark rotW rotH data th c y) rotW a b}"
      "sorted_wrt (\<lambda>p q. snd p + 1 < fst q) new'"
    using scanRow_runs by blast
  have "new = new'"
    using new new' isMaxRun_le by (intro runs_unique) auto
  then show ?thesis
    using new new' by simp
qed

lemma scanRows_rows:
  assumes "1 \<le> sp"
  shows "scanRows rotW rotH data (Some sp) th y strokes =
           Some (strokes @ concat (map (\<lambda>y'. scanRow rotW rotH data th y' []) (rowsFrom rotH sp y)))"
  using assms
proof (induction "nat (rotH - y)" arbitrary: y strokes rule: less_induct)
  case less
  show ?case
  proof (cases "y < rotH")
    case True
    then have "nat (rotH - (y + sp)) < nat (rotH - y)" using less.prems by simp
    from less.hyps [OF this less.prems]
    show ?thesis
      using True less.prems
      by (subst scanRows.simps, subst rowsFrom.simps) (simp add: scanRow_append [of _ _ _ _ _ strokes])
  next
    case False
    then show ?thesis
      by (subst scanRows.simps, subst rowsFrom.simps) simp
  qed
qed

lemma simpleStrokes_seg:
  assumes "\<forall>s\<in>set strokes. \<exists>y a b. s = seg y a b"
  shows "simpleStrokes strokes = strokes"
proof -
  have "[\<lparr>pt_x = pt_x (s ! 0) + 0, pt_y = pt_y (s ! 0) + 0\<rparr>,
         \<lparr>pt_x = pt_x (s ! 1) + 0, pt_y = pt_y (s ! 1) + 0\<rparr>] = s" if mem: "s \<in> set strokes" for s
  proof -
    obtain y a b where "s = seg y a b" using assms mem by blast
    then show ?thesis by (simp add: seg_def)
  qed
  then show ?thesis
    unfolding simpleStrokes_def by (simp add: map_idI)
qed

lemma scanRow_segs:
  assumes "s \<in> set (scanRow rotW rotH data th y [])"
  shows "\<exists>a b. s = seg y a b \<and> isMaxRun (\<lambda>c. isDark rotW rotH data th c y) rotW a b"
proof -
  obtain new where new: "scanRow rotW rotH data th y [] = [] @ map (\<lambda>(a, b). seg y a b) new"
      "set new = {(a, b). isMaxRun (\<lambda>c. isDark rotW rotH data th c y) rotW a b}"
    using scanRow_runs by blast
  then obtain p where p: "p \<in> set new" "s = (\<lambda>(a, b). seg y a b) p"
    using assms by auto
  obtain a b where ab: "p = (a, b)" by (cases p)
  have "(a, b) \<in> {(a, b). isMaxRun (\<lambda>c. isDark rotW rotH data th c y) rotW a b}"
    using p(1) ab new(2) by simp
  then show ?thesis
    using p(2) ab by auto
qed

lemma rows_segs:
  assumes "s \<in> set (concat (map (\<lambda>y. scanRow rotW rotH data th y []) ys))"
  shows "\<exists>y a b. y \<in> set ys \<and> s = seg y a b \<and> isMaxRun (\<lambda>c. isDark rotW rotH data th c y) rotW a b"
proof -
  obtain y where "y \<in> set ys" "s \<in> set (scanRow rotW rotH data th y [])"
    using assms by auto
  then show ?thesis
    using scanRow_segs by blast
qed

lemma scanRows_NaN:
  "scanRows rotW rotH data None th y strokes =
     Some (if y < rotH then strokes @ scanRow rotW rotH data th y [] else strokes)"
  by (subst scanRows.simps) (simp add: scanRow_append [of _ _ _ _ _ strokes])

lemma extract_rows:
  assumes "1 \<le> sp" "rotDims targetW targetH angleDeg = (Some rotW, Some rotH)"
    "cv image' targetW targetH (angleRad_of angleDeg) (Some rotW) (Some rotH) = Inr data"
  shows "extractStrokesFromImage cv image' targetW targetH angleDeg (Some sp) th =
           Some (Inr (concat (map (\<lambda>y. scanRow rotW rotH data th y []) (rowsFrom rotH sp 0))))"
proof -
  let ?all = "concat (map (\<lambda>y. scanRow rotW rotH data th y []) (rowsFrom rotH sp 0))"
  have "scanRows rotW rotH data (Some sp) th 0 [] = Some ?all"
    using scanRows_rows [OF assms(1), of rotW rotH data th 0 "[]"] by simp
  moreover have "simpleStrokes ?all = ?all"
    using rows_segs by (intro simpleStrokes_seg) blast
  ultimately show ?thesis
    using assms(2,3) unfolding extractStrokesFromImage_def by simp
qed

lemma extract_NaN_spacing:
  assumes "rotDims targetW targetH angleDeg = (Some rotW, Some rotH)"
    "cv image' targetW targetH (angleRad_of angleDeg) (Some rotW) (Some rotH) = Inr data"
  shows "extractStrokesFromImage cv image' targetW targetH angleDeg None th =
           Some (Inr (if 0 < rotH then scanRow rotW rotH data th 0 [] else []))"
proof -
  let ?row = "if 0 < rotH then scanRow rotW rotH data th 0 [] else []"
  have "scanRows rotW rotH data None th 0 [] = Some ?row"
    by (simp add: scanRows_NaN)
  moreover have "\<exists>y a b. s = seg y a b" if "s \<in> set ?row" for s
    using that scanRow_segs [of s rotW rotH data th 0] by (cases "0 < rotH") auto
  then have "simpleStrokes ?row = ?row"
    by (intro simpleStrokes_seg) blast
  ultimately show ?thesis
    using assms unfolding extractStrokesFromImage_def by simp
qed

lemma extract_NaN_size:
  assumes "rotDims targetW targetH angleDeg = (rotW, rotH)" "rotW = None \<or> rotH = None"
    "cv image' targetW targetH (angleRad_of angleDeg) rotW rotH = Inr data"
  shows "extractStrokesFromImage cv image' targetW targetH angleDeg sp th = Some (Inr [])"
  using assms unfolding extractStrokesFromImage_def simpleStrokes_def
  by (auto split: option.splits)

lemma extract_returns:
  assumes "\<And>n. sp = Some n \<Longrightarrow> 1 \<le> n"
  shows "\<exists>r. extractStrokesFromImage cv image' targetW targetH angleDeg sp th = Some r"
proof -
  obtain rotW rotH where d: "rotDims targetW targetH angleDeg = (rotW, rotH)"
    by (cases "rotDims targetW targetH angleDeg")
  show ?thesis
  proof (cases "cv image' targetW targetH (angleRad_of angleDeg) rotW rotH")
    case (Inl err)
    then show ?thesis using d unfolding extractStrokesFromImage_def by simp
  next
    case (Inr data)
    show ?thesis
    proof (cases "rotW = None \<or> rotH = None")
      case True
      then show ?thesis
        using extract_NaN_size [where cv = cv and image' = image', OF d True Inr] by simp
    next
      case False
      then obtain w h where wh: "rotW = Some w" "rotH = Some h" by auto
      show ?thesis
      proof (cases sp)
        case None
        then show ?thesis
          using extract_NaN_spacing [where cv = cv and image' = image', OF d [unfolded wh] Inr [unfolded wh]]
          by simp
      next
        case (Some n)
        then show ?thesis
          using extract_rows [where cv = cv and image' = image', OF assms [OF Some] d [unfolded wh]
              Inr [unfolded wh]]
          by simp
      qed
    qed
  qed
qed

lemma rowsFrom_set:
  "set (rowsFrom rotH sp y) = {z. 1 \<le> sp \<and> y \<le> z \<and> z < rotH \<and> sp dvd (z - y)}"
proof (induction rotH sp y rule: rowsFrom.induct)
  case (1 rotH sp y)
  show ?case
  proof (cases "y < rotH \<and> 1 \<le> sp")
    case True
    have "(z = y \<or> (y + sp \<le> z \<and> sp dvd (z - (y + sp)))) \<longleftrightarrow> (y \<le> z \<and> sp dvd (z - y))" for z
    proof
      assume "z = y \<or> (y + sp \<le> z \<and> sp dvd (z - (y + sp)))"
      then show "y \<le> z \<and> sp dvd (z - y)"
      proof
        assume "z = y" then show ?thesis by simp
      next
        assume a: "y + sp \<le> z \<and> sp dvd (z - (y + sp))"
        then have "sp dvd (z - (y + sp)) + sp" by (intro dvd_add) simp_all
        moreover have "(z - (y + sp)) + sp = z - y" by simp
        ultimately have "sp dvd z - y" by metis
        then show ?thesis using a True by simp
      qed
    next
      assume a: "y \<le> z \<and> sp dvd (z - y)"
      then obtain k where k: "z - y = sp * k" by (auto simp: dvd_def)
      show "z = y \<or> (y + sp \<le> z \<and> sp dvd (z - (y + sp)))"
      proof (cases "k \<le> 0")
        case kle: True
        then have "sp * k \<le> 0" using True by (simp add: mult_nonneg_nonpos)
        then show ?thesis using a k by simp
      next
        case False
        then have "sp * 1 \<le> sp * k" using True by (intro mult_left_mono) auto
        then have "sp \<le> z - y" using k by simp
        then have le: "y + sp \<le> z" by linarith
        have "z - (y + sp) = sp * (k - 1)" using k by (simp add: algebra_simps)
        then have "sp dvd (z - (y + sp))" by (metis dvd_triv_left)
        then show ?thesis using le by blast
      qed
    qed
    then show ?thesis
      using True 1 by (subst rowsFrom.simps) auto
  next
    case False
    then show ?thesis
      by (subst rowsFrom.simps) auto
  qed
qed

lemma rowsFrom_sorted: "sorted_wrt (<) (rowsFrom rotH sp y)"
proof (induction rotH sp y rule: rowsFrom.induct)
  case (1 rotH sp y)
  show ?case
  proof (cases "y < rotH \<and> 1 \<le> sp")
    case True
    then show ?thesis
      using 1 by (subst rowsFrom.simps) (auto simp: rowsFrom_set)
  next
    case False
    then have "rowsFrom rotH sp y = []"
      by (subst rowsFrom.simps) auto
    then show ?thesis by simp
  qed
qed

lemma seg_inj: "seg y a b = seg y' a' b' \<longleftrightarrow> y = y' \<and> a = a' \<and> b = b'"
  unfolding seg_def by auto

lemma scanRow_set_distinct:
  "distinct (scanRow rotW rotH data th y []) \<and>
   set (scanRow rotW rotH data th y []) =
     {seg y a b | a b. isMaxRun (\<lambda>c. isDark rotW rotH data th c y) rotW a b}"
proof -
  obtain new where new: "scanRow rotW rotH data th y [] = [] @ map (\<lambda>(a, b). seg y a b) new"
      "set new = {(a, b). isMaxRun (\<lambda>c. isDark rotW rotH data th c y) rotW a b}"
      "sorted_wrt (\<lambda>p q. snd p + 1 < fst q) new"
    using scanRow_runs by blast
  have "\<forall>p\<in>set new. fst p \<le> snd p"
    using new(2) isMaxRun_le by auto
  then have "distinct (map fst new)"
    using runs_strict [OF new(3)] by (simp add: strict_sorted_iff)
  then have "distinct new"
    by (simp add: distinct_map)
  moreover have "inj_on (\<lambda>(a, b). seg y a b) (set new)"
    by (auto simp: inj_on_def seg_inj)
  ultimately have "distinct (scanRow rotW rotH data th y [])"
    using new(1) by (simp add: distinct_map)
  moreover have "set (scanRow rotW rotH data th y []) =
      {seg y a b | a b. isMaxRun (\<lambda>c. isDark rotW rotH data th c y) rotW a b}"
    using new(1,2) by auto
  ultimately show ?thesis by simp
qed

lemma example_runs:
  assumes "10 < rotW" "\<forall>c\<in>{0..<rotW}. dark c \<longleftrightarrow> c \<in> {2, 3, 4, 9, 10}"
  shows "{(a, b). isMaxRun dark rotW a b} = {(2, 4), (9, 10)}"
proof (intro set_eqI iffI)
  fix p assume p: "p \<in> {(a, b). isMaxRun dark rotW a b}"
  obtain a b where ab: "p = (a, b)" by (cases p)
  then have m: "isMaxRun dark rotW a b" using p by simp
  have D: "dark c \<longleftrightarrow> c \<in> {2, 3, 4, 9, 10}" if "0 \<le> c" "c < rotW" for c
    using assms(2) that by simp
  have r: "0 \<le> a" "a \<le> b" "b < rotW" and all: "\<And>c. a \<le> c \<Longrightarrow> c \<le> b \<Longrightarrow> dark c"
    and l: "a = 0 \<or> \<not> dark (a - 1)" and u: "b = rotW - 1 \<or> \<not> dark (b + 1)"
    using m unfolding isMaxRun_def by auto
  have aD: "a \<in> {2, 3, 4, 9, 10}" using D [of a] all [of a] r by simp
  have bD: "b \<in> {2, 3, 4, 9, 10}" using D [of b] all [of b] r by simp
  have "a - 1 \<notin> {2, 3, 4, 9, 10}" using l D [of "a - 1"] aD r by auto
  then have a: "a = 2 \<or> a = 9" using aD by auto
  have "b = 10 \<or> b + 1 \<notin> {2, 3, 4, 9, 10}" using u D [of "b + 1"] bD r assms(1) by auto
  then have b: "b = 4 \<or> b = 10" using bD by auto
  have "\<not> (a \<le> 5 \<and> 5 \<le> b)" using all [of 5] D [of 5] assms(1) by auto
  then show "p \<in> {(2, 4), (9, 10)}" using a b r(2) ab by auto
next
  fix p :: "int \<times> int" assume "p \<in> {(2, 4), (9, 10)}"
  then consider "p = (2, 4)" | "p = (9, 10)" by auto
  then show "p \<in> {(a, b). isMaxRun dark rotW a b}"
  proof cases
    case 1
    have "\<forall>c\<in>{2..4::int}. c = 2 \<or> c = 3 \<or> c = 4" by auto
    then show ?thesis using 1 assms unfolding isMaxRun_def by auto
  next
    case 2
    have "\<forall>c\<in>{9..10::int}. c = 9 \<or> c = 10" by auto
    then show ?thesis using 2 assms unfolding isMaxRun_def by auto
  qed
qed

lemma example_row:
  assumes "10 < rotW"
    "\<forall>c\<in>{0..<rotW}. isDark rotW rotH data th c y \<longleftrightarrow> c \<in> {2, 3, 4, 9, 10}"
  shows "scanRow rotW rotH data th y [] = [seg y 2 4, seg y 9 10]"
proof -
  obtain new where new: "scanRow rotW rotH data th y [] = [] @ map (\<lambda>(a, b). seg y a b) new"
      "set new = {(a, b). isMaxRun (\<lambda>c. isDark rotW rotH data th c y) rotW a b}"
      "sorted_wrt (\<lambda>p q. snd p + 1 < fst q) new"
    using scanRow_runs by blast
  have "set new = {(2, 4), (9, 10)}"
    using new(2) example_runs [OF assms(1), of "\<lambda>c. isDark rotW rotH data th c y"] assms(2) by simp
  then have "new = [(2, 4), (9, 10)]"
    using new(3) by (intro runs_unique) auto
  then show ?thesis using new(1) by simp
qed

lemma row_sorted: "sorted_wrt rowThenX (scanRow rotW rotH data th y [])"
proof -
  obtain new where new: "scanRow rotW rotH data th y [] = [] @ map (\<lambda>(a, b). seg y a b) new"
      "set new = {(a, b). isMaxRun (\<lambda>c. isDark rotW rotH data th c y) rotW a b}"
      "sorted_wrt (\<lambda>p q. snd p + 1 < fst q) new"
    using scanRow_runs by blast
  have "\<forall>p\<in>set new. fst p \<le> snd p"
    using new(2) isMaxRun_le by auto
  then have "sorted_wrt (<) (map fst new)"
    using runs_strict [OF new(3)] by simp
  then have "sorted_wrt (\<lambda>p q. rowThenX ((\<lambda>(a, b). seg y a b) p) ((\<lambda>(a, b). seg y a b) q)) new"
    by (simp add: sorted_wrt_map rowThenX_def seg_def case_prod_beta)
  then show ?thesis
    using new(1) by (simp add: sorted_wrt_map)
qed

lemma pass_sorted:
  assumes "sorted_wrt (<) ys"
  shows "sorted_wrt rowThenX (concat (map (\<lambda>y. scanRow rotW rotH data th y []) ys))"
  using assms
proof (induction ys)
  case Nil
  then show ?case by simp
next
  case (Cons y ys)
  have "rowThenX s t" if s: "s \<in> set (scanRow rotW rotH data th y [])"
    and t: "t \<in> set (concat (map (\<lambda>y. scanRow rotW rotH data th y []) ys))" for s t
  proof -
    obtain a b where sab: "s = seg y a b" using scanRow_segs [OF s] by blast
    obtain y' a' b' where t': "y' \<in> set ys" "t = seg y' a' b'" using rows_segs [OF t] by blast
    have "y < y'" using Cons.prems t'(1) by simp
    then show ?thesis using sab t'(2) by (simp add: rowThenX_def seg_def)
  qed
  then show ?case
    using Cons row_sorted by (simp add: sorted_wrt_append)
qed

section \<open>Concrete values\<close>

lemma luminance_white: "luminance 255 255 255 = 8972014882652159 / 35184372088832"
proof -
  have u: "real (unat (255 :: 8 word)) = 255" by simp
  have a1: "fl (0.2126) = 1914930561557935 / 9007199254740992"
    by (subst fl_eval [of "- 3"]) (simp_all add: power_int_minus rne_def)
  have b1: "fl (1914930561557935 / 9007199254740992 * 255) = 7629801456207397 / 140737488355328"
    by (subst fl_eval [of "5"]) (simp_all add: power_int_minus rne_def)
  have a2: "fl (0.7152) = 6441948906990757 / 9007199254740992"
    by (subst fl_eval [of "- 1"]) (simp_all add: power_int_minus rne_def)
  have b2: "fl (6441948906990757 / 9007199254740992 * 255) = 802098130509103 / 4398046511104"
    by (subst fl_eval [of "7"]) (simp_all add: power_int_minus rne_def)
  have a3: "fl (0.0722) = 5202558289538397 / 72057594037927936"
    by (subst fl_eval [of "- 4"]) (simp_all add: power_int_minus rne_def)
  have b3: "fl (5202558289538397 / 72057594037927936 * 255) = 323889737263743 / 17592186044416"
    by (subst fl_eval [of "4"]) (simp_all add: power_int_minus rne_def)
  have c1: "fl (7629801456207397 / 140737488355328 + 802098130509103 / 4398046511104) = 8324235408124673 / 35184372088832"
    by (subst fl_eval [of "7"]) (simp_all add: power_int_minus rne_def)
  have c2: "fl (8324235408124673 / 35184372088832 + 323889737263743 / 17592186044416) = 8972014882652159 / 35184372088832"
    by (subst fl_eval [of "7"]) (simp_all add: power_int_minus rne_def)
  show ?thesis
    unfolding luminance_def by (simp only: u a1 b1 a2 b2 a3 b3 c1 c2)
qed

lemma luminance_black: "luminance 0 0 0 = 0"
  by (simp add: luminance_def)

lemma angleRad_of_0: "angleRad_of 0 = 0"
  by (simp add: angleRad_of_def)

lemma rotDims_0:
  assumes "\<bar>W\<bar> \<le> 2 ^ 53" "\<bar>H\<bar> \<le> 2 ^ 53"
  shows "rotDims (Some W) (Some H) 0 = (Some W, Some H)"
  unfolding rotDims_def
  by (simp add: angleRad_of_0 Math_cos_def Math_sin_def fl_Ints fl_int [OF assms(1)] fl_int [OF assms(2)])

lemma row12_dark:
  "\<forall>c\<in>{0..<12}. isDark 12 1 row12 (Some 128) c 0 \<longleftrightarrow> c \<in> {2, 3, 4, 9, 10}"
proof -
  have "{0..<12::int} = {0, 1, 2, 3, 4, 5, 6, 7, 8, 9, 10, 11}" by auto presburger
  then show ?thesis
    by (simp add: isDark_def pixelGray_def data_at_def row12_def px_def
        luminance_white luminance_black)
qed

lemma rowsFrom_1: "rowsFrom 1 1 0 = [0]"
  by (simp add: rowsFrom.simps)

lemma extract_row12:
  "extractStrokesFromImage rowCanvas img12 (Some 12) (Some 1) 0 (Some 1) (Some 128) =
     Some (Inr [seg 0 2 4, seg 0 9 10])"
proof -
  have "scanRow 12 1 row12 (Some 128) 0 [] = [seg 0 2 4, seg 0 9 10]"
    using example_row [of 12 1 row12 "Some 128" 0] row12_dark by simp
  moreover have "rotDims (Some 12) (Some 1) 0 = (Some 12, Some 1)"
    by (rule rotDims_0) simp_all
  ultimately show ?thesis
    using extract_rows [where cv = rowCanvas and image' = img12 and th = "Some 128" and sp = 1
        and targetW = "Some 12" and targetH = "Some 1" and angleDeg = 0 and rotW = 12 and rotH = 1
        and data = row12]
    by (simp add: rowCanvas_def rowsFrom_1)
qed

section \<open>The click handler\<close>

lemma Math_round_round: "Math_round v = round v"
  unfolding Math_round_def round_def by simp

lemma lineSpacingPx_of_ge1: "lineSpacingPx_of inp = Some n \<Longrightarrow> 1 \<le> n"
  unfolding lineSpacingPx_of_def by auto

lemma passes_of_ge1: "1 \<le> passes_of inp"
  unfolding passes_of_def by simp

lemma targetPxWidth_ge1: "targetPxWidth w r = Some n \<Longrightarrow> 1 \<le> n"
  unfolding targetPxWidth_def by auto

lemma targetPxWidth_number:
  "targetPxWidth (parseFloat (Some w)) (parseFloat (Some r)) =
     Some (max 1 (Math_round (fl (fl w * fl r))))"
  unfolding targetPxWidth_def parseFloat_def mulD_def by simp

lemma targetPxWidth_NaN:
  "targetPxWidth (parseFloat w) (parseFloat r) = None \<longleftrightarrow> w = None \<or> r = None"
  unfolding targetPxWidth_def parseFloat_def mulD_def by (simp split: option.splits)

lemma lineSpacingPx_of_number:
  assumes "lineSpacingMM inp = Some l" "pxPerMM inp = Some r"
  shows "lineSpacingPx_of inp = Some (max 1 (Math_round (fl (fl l * fl r))))"
  unfolding lineSpacingPx_of_def parseFloat_def mulD_def using assms by simp

lemma lineSpacingPx_of_NaN:
  "lineSpacingPx_of inp = None \<longleftrightarrow> lineSpacingMM inp = None \<or> pxPerMM inp = None"
  unfolding lineSpacingPx_of_def parseFloat_def mulD_def by (simp split: option.splits)

lemma length_passAngles: "length (passAngles a n) = nat n"
  unfolding passAngles_def by simp

lemma extractPasses_cases:
  assumes "\<And>n. sp = Some n \<Longrightarrow> 1 \<le> n"
  shows "(\<exists>err. extractPasses cv image' w h sp th angles = Some (Inl err) \<and>
            (\<exists>ang\<in>set angles. extractStrokesFromImage cv image' w h ang sp th = Some (Inl err))) \<or>
         (\<exists>ps. extractPasses cv image' w h sp th angles = Some (Inr ps) \<and>
            map pass_angle ps = angles \<and>
            (\<forall>p\<in>set ps. extractStrokesFromImage cv image' w h (pass_angle p) sp th
                = Some (Inr (pass_strokes p))))"
proof (induction angles)
  case Nil
  then show ?case by simp
next
  case (Cons ang angles)
  obtain r where r: "extractStrokesFromImage cv image' w h ang sp th = Some r"
    using extract_returns [of sp, OF assms] by blast
  show ?case
  proof (cases r)
    case (Inl err)
    then show ?thesis using r by simp
  next
    case (Inr strokes)
    from Cons.IH show ?thesis
    proof
      assume "\<exists>err. extractPasses cv image' w h sp th angles = Some (Inl err) \<and>
            (\<exists>ang\<in>set angles. extractStrokesFromImage cv image' w h ang sp th = Some (Inl err))"
      then show ?thesis using r Inr by auto
    next
      assume "\<exists>ps. extractPasses cv image' w h sp th angles = Some (Inr ps) \<and>
            map pass_angle ps = angles \<and>
            (\<forall>p\<in>set ps. extractStrokesFromImage cv image' w h (pass_angle p) sp th
                = Some (Inr (pass_strokes p)))"
      then show ?thesis using r Inr by auto
    qed
  qed
qed

lemma combinedStrokes_toMM:
  "combinedStrokes mmPerPx ps = concat (map (\<lambda>p. map (toMM mmPerPx) (pass_strokes p)) ps)"
  unfolding combinedStrokes_def toMM_def by simp

lemma click_cases:
  assumes "src (img s) \<noteq> []"
  shows "(\<exists>err. extractPasses cv (img s) (targetPxWidth (parseFloat (widthMM inp)) (parseFloat (pxPerMM inp)))
              (targetPxHeight (naturalHeight (img s))
                 (scale (targetPxWidth (parseFloat (widthMM inp)) (parseFloat (pxPerMM inp))) (naturalWidth (img s))))
              (lineSpacingPx_of inp) (threshold inp)
              (passAngles (angleDeg_of inp) (passes_of inp)) = Some (Inl err) \<and>
            processBtn_click cv inp s =
              Some (s\<lparr>processBtn_disabled := False\<rparr>, Some (''Error processing image: '' @ err))) \<or>
         (\<exists>ps. extractPasses cv (img s) (targetPxWidth (parseFloat (widthMM inp)) (parseFloat (pxPerMM inp)))
              (targetPxHeight (naturalHeight (img s))
                 (scale (targetPxWidth (parseFloat (widthMM inp)) (parseFloat (pxPerMM inp))) (naturalWidth (img s))))
              (lineSpacingPx_of inp) (threshold inp)
              (passAngles (angleDeg_of inp) (passes_of inp)) = Some (Inr ps) \<and>
            processBtn_click cv inp s =
              Some (s\<lparr>lastStrokes := Some (combinedStrokes (mmPerPx_of inp) ps),
                      lastCanvasSize :=
                        \<lparr>cs_w = targetPxWidth (parseFloat (widthMM inp)) (parseFloat (pxPerMM inp)),
                         cs_h = targetPxHeight (naturalHeight (img s))
                           (scale (targetPxWidth (parseFloat (widthMM inp)) (parseFloat (pxPerMM inp))) (naturalWidth (img s))),
                         cs_mmPerPx = mmPerPx_of inp,
                         cs_angles = passAngles (angleDeg_of inp) (passes_of inp)\<rparr>,
                      downloadPNG_disabled := False,
                      downloadGcode_disabled := False,
                      processBtn_disabled := False\<rparr>, None))"
proof -
  let ?w = "targetPxWidth (parseFloat (widthMM inp)) (parseFloat (pxPerMM inp))"
  let ?h = "targetPxHeight (naturalHeight (img s)) (scale ?w (naturalWidth (img s)))"
  let ?angles = "passAngles (angleDeg_of inp) (passes_of inp)"
  from extractPasses_cases [of "lineSpacingPx_of inp" cv "img s" ?w ?h "threshold inp" ?angles,
      OF lineSpacingPx_of_ge1 [of inp]]
  consider err where "extractPasses cv (img s) ?w ?h (lineSpacingPx_of inp) (threshold inp) ?angles
      = Some (Inl err)"
    | ps where "extractPasses cv (img s) ?w ?h (lineSpacingPx_of inp) (threshold inp) ?angles
      = Some (Inr ps)"
    by blast
  then show ?thesis
  proof cases
    case 1
    then show ?thesis
      using assms unfolding processBtn_click_def by (simp add: Let_def)
  next
    case 2
    then show ?thesis
      using assms unfolding processBtn_click_def by (simp add: Let_def)
  qed
qed

lemma extract_sorted:
  assumes "\<And>n. sp = Some n \<Longrightarrow> 1 \<le> n"
    "extractStrokesFromImage cv image' w h ang sp th = Some (Inr strokes)"
  shows "sorted_wrt rowThenX strokes"
proof -
  obtain rotW rotH where d: "rotDims w h ang = (rotW, rotH)"
    by (cases "rotDims w h ang")
  show ?thesis
  proof (cases "cv image' w h (angleRad_of ang) rotW rotH")
    case (Inl err)
    then show ?thesis
      using assms(2) d unfolding extractStrokesFromImage_def by simp
  next
    case (Inr data)
    show ?thesis
    proof (cases "rotW = None \<or> rotH = None")
      case True
      then show ?thesis
        using extract_NaN_size [where cv = cv and image' = image', OF d True Inr, of sp th] assms(2)
        by simp
    next
      case False
      then obtain rw rh where wh: "rotW = Some rw" "rotH = Some rh" by auto
      show ?thesis
      proof (cases sp)
        case None
        then have "strokes = (if 0 < rh then scanRow rw rh data th 0 [] else [])"
          using extract_NaN_spacing [where cv = cv and image' = image', OF d [unfolded wh]
              Inr [unfolded wh], of th] assms(2)
          by simp
        then show ?thesis
          using row_sorted [of rw rh data th 0] by (simp split: if_splits)
      next
        case (Some n)
        then have "strokes = concat (map (\<lambda>y. scanRow rw rh data th y []) (rowsFrom rh n 0))"
          using extract_rows [where cv = cv and image' = image', OF assms(1) [OF Some]
              d [unfolded wh] Inr [unfolded wh], of th] assms(2)
          by simp
        then show ?thesis
          using pass_sorted [OF rowsFrom_sorted] by simp
      qed
    qed
  qed
qed

lemma click_success:
  assumes "src (img s) \<noteq> []" "processBtn_click cv inp s = Some (s', None)"
  shows "\<exists>ps. extractPasses cv (img s) (targetPxWidth (parseFloat (widthMM inp)) (parseFloat (pxPerMM inp)))
              (targetPxHeight (naturalHeight (img s))
                 (scale (targetPxWidth (parseFloat (widthMM inp)) (parseFloat (pxPerMM inp))) (naturalWidth (img s))))
              (lineSpacingPx_of inp) (threshold inp)
              (passAngles (angleDeg_of inp) (passes_of inp)) = Some (Inr ps) \<and>
            s' = s\<lparr>lastStrokes := Some (combinedStrokes (mmPerPx_of inp) ps),
                      lastCanvasSize :=
                        \<lparr>cs_w = targetPxWidth (parseFloat (widthMM inp)) (parseFloat (pxPerMM inp)),
                         cs_h = targetPxHeight (naturalHeight (img s))
                           (scale (targetPxWidth (parseFloat (widthMM inp)) (parseFloat (pxPerMM inp))) (naturalWidth (img s))),
                         cs_mmPerPx = mmPerPx_of inp,
                         cs_angles = passAngles (angleDeg_of inp) (passes_of inp)\<rparr>,
                      downloadPNG_disabled := False,
                      downloadGcode_disabled := False,
                      processBtn_disabled := False\<rparr>"
  using click_cases [OF assms(1), of cv inp] assms(2) by auto

lemma passAngles_0_1: "passAngles 0 1 = [0]"
  unfolding passAngles_def js_rem_def by simp

lemma fl_07: "fl 0.7 = 3152519739159347 / 4503599627370496"
  by (subst fl_eval [of "- 1"]) (simp_all add: power_int_minus rne_def)

lemma fl_0145: "fl 0.145 = 5224175567749775 / 36028797018963968"
  by (subst fl_eval [of "- 3"]) (simp_all add: power_int_minus rne_def)

lemma targetPxWidth_07: "targetPxWidth (parseFloat (Some 0.7)) (parseFloat (Some 5)) = Some 4"
proof -
  have f5: "fl 5 = 5" by (simp add: fl_Ints)
  have p: "fl (3152519739159347 / 4503599627370496 * 5) = 7 / 2"
    by (subst fl_eval [of "1"]) (simp_all add: power_int_minus rne_def)
  show ?thesis
    unfolding targetPxWidth_def parseFloat_def mulD_def
    by (simp only: option.map option.case prod.case fl_07 f5 p) (simp add: Math_round_def)
qed

lemma targetPxWidth_0145: "targetPxWidth (parseFloat (Some 0.145)) (parseFloat (Some 100)) = Some 14"
proof -
  have f100: "fl 100 = 100" by (simp add: fl_Ints)
  have q: "fl (5224175567749775 / 36028797018963968 * 100) = 8162774324609023 / 562949953421312"
    by (subst fl_eval [of "3"]) (simp_all add: power_int_minus rne_def)
  show ?thesis
    unfolding targetPxWidth_def parseFloat_def mulD_def
    by (simp only: option.map option.case prod.case fl_0145 f100 q) (simp add: Math_round_def)
qed

lemma targetPxHeight_4_10: "targetPxHeight 10 (scale (Some 4) 10) = Some 4"
proof -
  have a: "fl (real_of_int 4 / real (10::nat)) = 3602879701896397 / 9007199254740992"
    by (subst fl_eval [of "- 2"]) (simp_all add: power_int_minus rne_def)
  have b: "fl (real (10::nat) * (3602879701896397 / 9007199254740992)) = 4"
    by (subst fl_eval [of "2"]) (simp_all add: power_int_minus rne_def)
  show ?thesis
    unfolding targetPxHeight_def scale_def mulD_def divD_def
    by (simp only: option.map option.case prod.case a b) (simp add: Math_round_def)
qed

lemma targetPxHeight_1_10: "targetPxHeight 10 (scale (Some 1) 10) = Some 1"
proof -
  have a: "fl (real_of_int 1 / real (10::nat)) = 3602879701896397 / 36028797018963968"
    by (subst fl_eval [of "- 4"]) (simp_all add: power_int_minus rne_def)
  have b: "fl (real (10::nat) * (3602879701896397 / 36028797018963968)) = 1"
    by (subst fl_eval [of "0"]) (simp_all add: power_int_minus rne_def)
  show ?thesis
    unfolding targetPxHeight_def scale_def mulD_def divD_def
    by (simp only: option.map option.case prod.case a b) (simp add: Math_round_def)
qed

lemma mmPerPx_5: "divD (Some 1) (parseFloat (Some 5)) = Some (3602879701896397 / 18014398509481984)"
proof -
  have f5: "fl 5 = 5" by (simp add: fl_Ints)
  have a: "fl (1 / 5) = 3602879701896397 / 18014398509481984"
    by (subst fl_eval [of "- 3"]) (simp_all add: power_int_minus rne_def)
  show ?thesis
    unfolding parseFloat_def divD_def
    by (simp only: option.map option.case prod.case f5 a)
qed

lemma mm_3_5: "mulD (Some 3) (Some (3602879701896397 / 18014398509481984)) = Some (1351079888211149 / 2251799813685248)"
proof -
  have b: "fl (3 * (3602879701896397 / 18014398509481984)) = 1351079888211149 / 2251799813685248"
    by (subst fl_eval [of "- 1"]) (simp_all add: power_int_minus rne_def)
  show ?thesis
    unfolding mulD_def
    by (simp only: option.case prod.case b)
qed

lemma mulD_0: "mulD (Some 0) (Some m) = Some 0"
  unfolding mulD_def by simp






lemma digitChar_digit: "d < 10 \<Longrightarrow> digitChar d \<in> set ''0123456789''"
  unfolding digitChar_def by (rule nth_mem) simp

lemma decimal_digits: "decimal n \<noteq> [] \<and> set (decimal n) \<subseteq> set ''0123456789''"
proof (induction n rule: decimal.induct)
  case (1 n)
  show ?case
  proof (cases "n < 10")
    case True
    then have "decimal n = [digitChar n]"
      by (subst decimal.simps) simp
    then show ?thesis
      using digitChar_digit [OF True] by (simp only: list.set) blast
  next
    case False
    then have "decimal n = decimal (n div 10) @ [digitChar (n mod 10)]"
      by (subst decimal.simps) simp
    moreover have "digitChar (n mod 10) \<in> set ''0123456789''"
      by (rule digitChar_digit) simp
    ultimately show ?thesis
      using 1 [OF False] by (simp only: set_append list.set) blast
  qed
qed

lemma toFixed_Some:
  "toFixed numStr (Some v) f =
     (let s = (if v < 0 then ''-'' else []);
          x = (if v < 0 then - v else v)
      in if x \<ge> 10 ^ 21 then s @ numStr x
         else
           let n = nat \<lfloor>x * 10 ^ f + 1 / 2\<rfloor>;
               m = decimal n
           in if f \<noteq> 0 then
                let k = length m;
                    m' = (if k \<le> f then replicate (f + 1 - k) (CHR ''0'') @ m else m);
                    k' = (if k \<le> f then f + 1 else k)
                in s @ take (k' - f) m' @ ''.'' @ drop (k' - f) m'
              else s @ m)"
  unfolding toFixed_def by simp

lemma toFixed_3:
  assumes "\<bar>v\<bar> < 10 ^ 21"
  shows "\<exists>a b. toFixed numStr (Some v) 3 = (if v < 0 then ''-'' else []) @ a @ ''.'' @ b \<and>
           a \<noteq> [] \<and> length b = 3 \<and> set (a @ b) \<subseteq> set ''0123456789''"
proof -
  define x where "x = (if v < 0 then - v else v)"
  define m where "m = decimal (nat \<lfloor>x * 10 ^ 3 + 1 / 2\<rfloor>)"
  define m' where "m' = (if length m \<le> 3 then replicate (3 + 1 - length m) (CHR ''0'') @ m else m)"
  define k' where "k' = (if length m \<le> 3 then 3 + 1 else length m)"
  have x: "\<not> x \<ge> 10 ^ 21" using assms unfolding x_def by auto
  have m: "m \<noteq> []" "set m \<subseteq> set ''0123456789''"
    unfolding m_def using decimal_digits by blast+
  have eq: "toFixed numStr (Some v) 3 = (if v < 0 then ''-'' else []) @ take (k' - 3) m' @ ''.'' @ drop (k' - 3) m'"
    unfolding toFixed_Some Let_def using x
    by (simp only: x_def [symmetric] m_def [symmetric] m'_def [symmetric] k'_def [symmetric])
      simp
  have len: "length m' = k'" "3 < k'"
    unfolding m'_def k'_def by auto
  have "set m' \<subseteq> set ''0123456789''"
    unfolding m'_def using m(2) by auto
  then have "set (take (k' - 3) m' @ drop (k' - 3) m') \<subseteq> set ''0123456789''"
    by (simp only: append_take_drop_id)
  moreover have "take (k' - 3) m' \<noteq> []" "length (drop (k' - 3) m') = 3"
    using len by auto
  ultimately show ?thesis
    using eq by blast
qed

lemma map_nth_tl: "map (\<lambda>i. f (xs ! i)) [1..<length xs] = map f (tl xs)"
  by (rule nth_equalityI) (simp_all add: nth_tl)

lemma drawMoves_tl:
  "drawMoves numStr stroke =
     map (\<lambda>p. ''G1 X'' @ toFixed numStr (pt_x p) 3 @ '' Y'' @ toFixed numStr (pt_y p) 3) (tl stroke)"
  unfolding drawMoves_def Let_def
  by (rule map_nth_tl [of "\<lambda>p. ''G1 X'' @ toFixed numStr (pt_x p) 3 @ '' Y'' @ toFixed numStr (pt_y p) 3"])

lemma concat_strokeLines_skip:
  "concat (map (\<lambda>(idx, stroke). strokeLines numStr m idx stroke) ps) =
   concat (map (\<lambda>(idx, stroke). strokeLines numStr m idx stroke)
     (filter (\<lambda>(idx, stroke). stroke \<noteq> []) ps))"
  by (induction ps) (auto simp: strokeLines_def)

lemma toFixed_examples:
  "toFixed numStr (Some 2) 3 = ''2.000''" "toFixed numStr (Some 0) 3 = ''0.000''"
  "toFixed numStr (Some 4) 3 = ''4.000''" "toFixed numStr (Some 5) 3 = ''5.000''"
  "toFixed numStr None 3 = ''NaN''"
  by (simp_all add: toFixed_def decimal.simps digitChar_def Let_def numeral_2_eq_2)

lemma wholeStr_examples:
  "wholeStr 1 = ''1''" "wholeStr 1500 = ''1500''" "wholeStr 3000 = ''3000''"
  by (simp_all add: wholeStr_def decimal.simps digitChar_def)

lemma click_returns: "\<exists>r. processBtn_click cv inp s = Some r"
proof (cases "src (img s) = []")
  case True
  then show ?thesis unfolding processBtn_click_def by simp
next
  case False
  then show ?thesis using click_cases [of s cv inp] by auto
qed

lemma concat_replicate_nth:
  assumes "i < n" "k < length xs"
  shows "concat (replicate n xs) ! (length xs * i + k) = xs ! k"
  using assms
proof (induction n arbitrary: i)
  case 0
  then show ?case by simp
next
  case (Suc n)
  show ?case
  proof (cases i)
    case 0
    then show ?thesis using Suc.prems by (simp add: nth_append)
  next
    case (Suc j)
    then have "j < n" using Suc.prems by simp
    then have "concat (replicate n xs) ! (length xs * j + k) = xs ! k"
      using Suc.IH Suc.prems(2) by blast
    moreover have "length xs * i + k = length xs + (length xs * j + k)"
      using Suc by simp
    ultimately show ?thesis
      by (simp add: nth_append)
  qed
qed

lemma black_dark:
  assumes "0 \<le> c" "c < rotW" "0 \<le> y" "y < rotH" "0 < th"
  shows "isDark rotW rotH (concat (replicate (nat (rotW * rotH)) (px True))) (Some th) c y"
proof -
  let ?data = "concat (replicate (nat (rotW * rotH)) (px True))"
  define i where "i = nat (y * rotW + c)"
  have "y * rotW \<le> (rotH - 1) * rotW"
    using assms by (intro mult_right_mono) auto
  then have lt: "y * rotW + c < rotW * rotH"
    using assms by (simp add: algebra_simps)
  have nn: "0 \<le> y * rotW + c" using assms by simp
  have i: "i < nat (rotW * rotH)" unfolding i_def using lt nn by simp
  have len: "length ?data = 4 * nat (rotW * rotH)"
    by (simp add: px_def length_concat sum_list_replicate)
  have l4: "length (px True) = 4"
    by (simp add: px_def)
  have nth: "?data ! (4 * i + k) = px True ! k" if "k < 4" for k
    using concat_replicate_nth [OF i, of k "px True", unfolded l4] that by blast
  have idx: "nat ((y * rotW + c) * 4 + int k) = 4 * i + k" for k
    unfolding i_def using nn by (simp add: nat_add_distrib nat_mult_distrib)
  have "data_at ?data ((y * rotW + c) * 4 + int k) = Some (px True ! k)" if "k < 4" for k
  proof -
    have "(y * rotW + c) * 4 + int k < int (length ?data)"
      using len i idx [of k] that nn by linarith
    then show ?thesis
      unfolding data_at_def using nn idx [of k] nth [OF that] by simp
  qed
  from this [of 0] this [of 1] this [of 2]
  have "pixelGray rotW rotH ?data c y = Some 0"
    unfolding pixelGray_def using assms by (simp add: px_def Let_def luminance_black)
  then show ?thesis
    unfolding isDark_def using assms(5) by simp
qed

lemma all_dark_row:
  assumes "0 < rotW" "\<forall>c\<in>{0..<rotW}. isDark rotW rotH data th c y"
  shows "scanRow rotW rotH data th y [] = [seg y 0 (rotW - 1)]"
proof -
  obtain new where new: "scanRow rotW rotH data th y [] = [] @ map (\<lambda>(a, b). seg y a b) new"
      "set new = {(a, b). isMaxRun (\<lambda>c. isDark rotW rotH data th c y) rotW a b}"
      "sorted_wrt (\<lambda>p q. snd p + 1 < fst q) new"
    using scanRow_runs by blast
  have "isMaxRun (\<lambda>c. isDark rotW rotH data th c y) rotW a b \<longleftrightarrow> a = 0 \<and> b = rotW - 1" for a b
  proof
    assume m: "isMaxRun (\<lambda>c. isDark rotW rotH data th c y) rotW a b"
    then have r: "0 \<le> a" "a \<le> b" "b < rotW"
      and l: "a = 0 \<or> \<not> isDark rotW rotH data th (a - 1) y"
      and u: "b = rotW - 1 \<or> \<not> isDark rotW rotH data th (b + 1) y"
      unfolding isMaxRun_def by auto
    have "a = 0"
    proof (rule ccontr)
      assume "a \<noteq> 0"
      then have "a - 1 \<in> {0..<rotW}" using r by auto
      then show False using l \<open>a \<noteq> 0\<close> assms(2) by blast
    qed
    moreover have "b = rotW - 1"
    proof (rule ccontr)
      assume "b \<noteq> rotW - 1"
      then have "b + 1 \<in> {0..<rotW}" using r by auto
      then show False using u \<open>b \<noteq> rotW - 1\<close> assms(2) by blast
    qed
    ultimately show "a = 0 \<and> b = rotW - 1" by simp
  next
    assume "a = 0 \<and> b = rotW - 1"
    then show "isMaxRun (\<lambda>c. isDark rotW rotH data th c y) rotW a b"
      unfolding isMaxRun_def using assms by auto
  qed
  then have "set new = {(0, rotW - 1)}"
    using new(2) by auto
  then have "new = [(0, rotW - 1)]"
    using new(3) assms(1) by (intro runs_unique) auto
  then show ?thesis using new(1) by simp
qed

lemma concat_map_single:
  assumes "\<And>y. y \<in> set ys \<Longrightarrow> f y = [g y]"
  shows "concat (map f ys) = map g ys"
  using assms by (induction ys) simp_all

lemma extract_black:
  assumes "1 \<le> sp" "0 < th" "0 < W" "W \<le> 2 ^ 53" "\<bar>H\<bar> \<le> 2 ^ 53"
  shows "extractStrokesFromImage blackCanvas image' (Some W) (Some H) 0 (Some sp) (Some th) =
           Some (Inr (map (\<lambda>y. seg y 0 (W - 1)) (rowsFrom H sp 0)))"
proof -
  let ?data = "concat (replicate (nat (W * H)) (px True))"
  have d: "rotDims (Some W) (Some H) 0 = (Some W, Some H)"
    using assms(3,4,5) by (intro rotDims_0) simp_all
  have cvd: "blackCanvas image' (Some W) (Some H) (angleRad_of 0) (Some W) (Some H) = Inr ?data"
    by (simp add: blackCanvas_def)
  have "scanRow W H ?data (Some th) y [] = [seg y 0 (W - 1)]" if "y \<in> set (rowsFrom H sp 0)" for y
  proof -
    have y: "0 \<le> y" "y < H" using that by (simp_all add: rowsFrom_set)
    show ?thesis
      using y assms(2,3) black_dark [of _ W y H th] by (intro all_dark_row) auto
  qed
  then have "concat (map (\<lambda>y. scanRow W H ?data (Some th) y []) (rowsFrom H sp 0))
      = map (\<lambda>y. seg y 0 (W - 1)) (rowsFrom H sp 0)"
    by (rule concat_map_single)
  then show ?thesis
    using extract_rows [where cv = blackCanvas and image' = image' and th = "Some th", OF assms(1) d cvd]
    by simp
qed

lemma click_black10:
  "processBtn_click blackCanvas inputs10 (state0 img10) =
     Some ((state0 img10)\<lparr>lastStrokes :=
               Some [[\<lparr>pt_x = Some 0, pt_y = Some 0\<rparr>, \<lparr>pt_x = Some 9, pt_y = Some 0\<rparr>],
                     [\<lparr>pt_x = Some 0, pt_y = Some 2\<rparr>, \<lparr>pt_x = Some 9, pt_y = Some 2\<rparr>],
                     [\<lparr>pt_x = Some 0, pt_y = Some 4\<rparr>, \<lparr>pt_x = Some 9, pt_y = Some 4\<rparr>],
                     [\<lparr>pt_x = Some 0, pt_y = Some 6\<rparr>, \<lparr>pt_x = Some 9, pt_y = Some 6\<rparr>],
                     [\<lparr>pt_x = Some 0, pt_y = Some 8\<rparr>, \<lparr>pt_x = Some 9, pt_y = Some 8\<rparr>]],
             lastCanvasSize :=
               \<lparr>cs_w = Some 10, cs_h = Some 10, cs_mmPerPx = Some 1, cs_angles = [0]\<rparr>,
             downloadPNG_disabled := False,
             downloadGcode_disabled := False,
             processBtn_disabled := False\<rparr>, None)"
proof -
  have "targetPxWidth (parseFloat (widthMM inputs10)) (parseFloat (pxPerMM inputs10)) = Some 10"
    by (simp add: targetPxWidth_def parseFloat_def mulD_def Math_round_def inputs10_def fl_Ints)
  moreover have "targetPxHeight (naturalHeight img10) (scale (Some 10) (naturalWidth img10)) = Some 10"
    by (simp add: targetPxHeight_def scale_def mulD_def divD_def Math_round_def img10_def fl_Ints)
  moreover have "lineSpacingPx_of inputs10 = Some 2"
    by (simp add: lineSpacingPx_of_def parseFloat_def mulD_def Math_round_def inputs10_def fl_Ints)
  moreover have "passAngles (angleDeg_of inputs10) (passes_of inputs10) = [0]"
    by (simp add: angleDeg_of_def parseFloat_def passes_of_def inputs10_def passAngles_0_1)
  moreover have "threshold inputs10 = Some 128" "mmPerPx_of inputs10 = Some 1"
    by (simp_all add: inputs10_def mmPerPx_of_def parseFloat_def divD_def fl_Ints)
  moreover have "src (img (state0 img10)) \<noteq> []" "img (state0 img10) = img10"
    by (simp_all add: state0_def img10_def)
  moreover have "rowsFrom 10 2 0 = [0, 2, 4, 6, 8]"
    by (simp add: rowsFrom.simps)
  then have "extractStrokesFromImage blackCanvas img10 (Some 10) (Some 10) 0 (Some 2) (Some 128) =
      Some (Inr [seg 0 0 9, seg 2 0 9, seg 4 0 9, seg 6 0 9, seg 8 0 9])"
    using extract_black [of 2 128 10 10 img10] by simp
  ultimately show ?thesis
    unfolding processBtn_click_def
    by (simp add: Let_def combinedStrokes_def mulD_def seg_def fl_Ints)
qed

lemma click_negWidth:
  "processBtn_click blackCanvas inputsNegWidth (state0 img10) =
     Some ((state0 img10)\<lparr>lastStrokes :=
               Some [[\<lparr>pt_x = Some 0, pt_y = Some 0\<rparr>, \<lparr>pt_x = Some 0, pt_y = Some 0\<rparr>]],
             lastCanvasSize :=
               \<lparr>cs_w = Some 1, cs_h = Some 1, cs_mmPerPx = Some 1, cs_angles = [0]\<rparr>,
             downloadPNG_disabled := False,
             downloadGcode_disabled := False,
             processBtn_disabled := False\<rparr>, None)"
proof -
  have "targetPxWidth (parseFloat (widthMM inputsNegWidth)) (parseFloat (pxPerMM inputsNegWidth))
      = Some 1"
    by (simp add: targetPxWidth_def parseFloat_def mulD_def Math_round_def inputsNegWidth_def fl_Ints)
  moreover have "targetPxHeight (naturalHeight img10) (scale (Some 1) (naturalWidth img10)) = Some 1"
    by (simp add: img10_def targetPxHeight_1_10)
  moreover have "lineSpacingPx_of inputsNegWidth = Some 1"
    by (simp add: lineSpacingPx_of_def parseFloat_def mulD_def Math_round_def inputsNegWidth_def
        fl_Ints)
  moreover have "passAngles (angleDeg_of inputsNegWidth) (passes_of inputsNegWidth) = [0]"
    by (simp add: angleDeg_of_def parseFloat_def passes_of_def inputsNegWidth_def passAngles_0_1)
  moreover have "threshold inputsNegWidth = Some 128" "mmPerPx_of inputsNegWidth = Some 1"
    by (simp_all add: inputsNegWidth_def mmPerPx_of_def parseFloat_def divD_def fl_Ints)
  moreover have "src (img (state0 img10)) \<noteq> []" "img (state0 img10) = img10"
    by (simp_all add: state0_def img10_def)
  moreover have "extractStrokesFromImage blackCanvas img10 (Some 1) (Some 1) 0 (Some 1) (Some 128) =
      Some (Inr [seg 0 0 0])"
    using extract_black [of 1 128 1 1 img10] by (simp add: rowsFrom_1)
  ultimately show ?thesis
    unfolding processBtn_click_def
    by (simp add: Let_def combinedStrokes_def mulD_def seg_def fl_Ints)
qed

text \<open>
  A width of 0.7 mm at 5 pixels per mm: the product of the doubles is 3.5 after rounding,
  the target is 4 by 4 pixels, and the end of the one Stroke is at 3 times the double of
  0.2, which is 0.6000000000000001 mm.
\<close>

lemma click_07:
  "processBtn_click blackCanvas inputs07 (state0 img10) =
     Some ((state0 img10)\<lparr>lastStrokes :=
               Some [[\<lparr>pt_x = Some 0, pt_y = Some 0\<rparr>,
                      \<lparr>pt_x = Some (1351079888211149 / 2251799813685248), pt_y = Some 0\<rparr>]],
             lastCanvasSize :=
               \<lparr>cs_w = Some 4, cs_h = Some 4,
                cs_mmPerPx = Some (3602879701896397 / 18014398509481984), cs_angles = [0]\<rparr>,
             downloadPNG_disabled := False,
             downloadGcode_disabled := False,
             processBtn_disabled := False\<rparr>, None)"
proof -
  have "targetPxWidth (parseFloat (widthMM inputs07)) (parseFloat (pxPerMM inputs07)) = Some 4"
    using targetPxWidth_07 by (simp add: inputs07_def)
  moreover have "targetPxHeight (naturalHeight img10) (scale (Some 4) (naturalWidth img10)) = Some 4"
    by (simp add: img10_def targetPxHeight_4_10)
  moreover have "lineSpacingPx_of inputs07 = Some 5"
    by (simp add: lineSpacingPx_of_def parseFloat_def mulD_def Math_round_def inputs07_def fl_Ints)
  moreover have "passAngles (angleDeg_of inputs07) (passes_of inputs07) = [0]"
    by (simp add: angleDeg_of_def parseFloat_def passes_of_def inputs07_def passAngles_0_1)
  moreover have "threshold inputs07 = Some 128"
    by (simp add: inputs07_def)
  moreover have "mmPerPx_of inputs07 = Some (3602879701896397 / 18014398509481984)"
    using mmPerPx_5 by (simp add: inputs07_def mmPerPx_of_def)
  moreover have "src (img (state0 img10)) \<noteq> []" "img (state0 img10) = img10"
    by (simp_all add: state0_def img10_def)
  moreover have "rowsFrom 4 5 0 = [0]"
    by (simp add: rowsFrom.simps)
  then have "extractStrokesFromImage blackCanvas img10 (Some 4) (Some 4) 0 (Some 5) (Some 128) =
      Some (Inr [seg 0 0 3])"
    using extract_black [of 5 128 4 4 img10] by simp
  ultimately show ?thesis
    unfolding processBtn_click_def
    by (simp add: Let_def combinedStrokes_def seg_def mulD_0 mm_3_5)
qed

text \<open>
  The width left empty: the target size is NaN, the canvas throws, and the click ends in
  an alert.
\<close>

lemma click_noWidth:
  "processBtn_click blackCanvas inputsNoWidth (state0 img10) =
     Some (state0 img10, Some ''Error processing image: The source width is 0.'')"
  unfolding processBtn_click_def
  by (simp add: Let_def targetPxWidth_def parseFloat_def mulD_def divD_def scale_def
      targetPxHeight_def inputsNoWidth_def state0_def img10_def angleDeg_of_def passes_of_def passAngles_0_1
      extractStrokesFromImage_def rotDims_def blackCanvas_def)

section \<open>The quarter turn\<close>

text \<open>
  \<open>Math.PI\<close> is below \<open>pi\<close>, so that the double of 90 degrees in radians is below
  \<open>pi / 2\<close>: its cosine is not 0 but about \<open>6.1e-17\<close>, and its sine rounds to 1.
\<close>

lemma fl_90_PI: "fl (90 * (884279719003555 / 2 ^ 48)) = 4974073419394997 / 17592186044416"
  by (subst fl_eval [of "8"]) (simp_all add: power_int_minus rne_def)

lemma fl_90_PI_180: "fl (4974073419394997 / 17592186044416 / 180) = 884279719003555 / 562949953421312"
  by (subst fl_eval [of "0"]) (simp_all add: power_int_minus rne_def)

lemma fl_pi_lo: "fl (31415926535897932 / 10 ^ 16) = 884279719003555 / 281474976710656"
  by (subst fl_eval [of "1"]) (simp_all add: power_int_minus rne_def)

lemma fl_pi_hi: "fl (31415926535897933 / 10 ^ 16) = 884279719003555 / 281474976710656"
  by (subst fl_eval [of "1"]) (simp_all add: power_int_minus rne_def)

lemma fl_c_lo: "fl (1 / 2 ^ 55) = 1 / 36028797018963968"
  by (subst fl_eval [of "- 55"]) (simp_all add: power_int_minus rne_def)

lemma fl_c_hi: "fl (1 / 2 ^ 51) = 1 / 2251799813685248"
  by (subst fl_eval [of "- 51"]) (simp_all add: power_int_minus rne_def)

lemma fl_12c_lo: "fl (12 * (1 / 2 ^ 55)) = 3 / 9007199254740992"
  by (subst fl_eval [of "- 52"]) (simp_all add: power_int_minus rne_def)

lemma fl_12c_hi: "fl (12 * (1 / 2 ^ 51)) = 3 / 562949953421312"
  by (subst fl_eval [of "- 48"]) (simp_all add: power_int_minus rne_def)

lemma fl_w_lo: "fl (12 * (1 / 2 ^ 55) + 1) = 2251799813685249 / 2251799813685248"
  by (subst fl_eval [of "0"]) (simp_all add: power_int_minus rne_def)

lemma fl_w_hi: "fl (12 * (1 / 2 ^ 51) + 1) = 562949953421315 / 562949953421312"
  by (subst fl_eval [of "0"]) (simp_all add: power_int_minus rne_def)

lemma fl_h_lo: "fl (12 + 1 / 2 ^ 55) = 12"
  by (subst fl_eval [of "3"]) (simp_all add: power_int_minus rne_def)

lemma fl_h_hi: "fl (12 + 1 / 2 ^ 51) = 12"
  by (subst fl_eval [of "3"]) (simp_all add: power_int_minus rne_def)

lemma fl_s_lo: "fl (1 - 1 / 2 ^ 54) = 1"
  by (subst fl_eval [of "- 1"]) (simp_all add: power_int_minus rne_def)

lemma Math_PI_nearest: "fl pi = Math_PI"
proof -
  have "fl (31415926535897932 / 10 ^ 16) \<le> fl pi"
    using pi_bounds(1) by (intro fl_mono) simp
  moreover have "fl pi \<le> fl (31415926535897933 / 10 ^ 16)"
    using pi_bounds(2) by (intro fl_mono) simp
  ultimately show ?thesis
    unfolding fl_pi_lo fl_pi_hi Math_PI_def by simp
qed

lemma angleRad_of_90: "angleRad_of 90 = Math_PI / 2"
  unfolding angleRad_of_def Math_PI_def by (simp only: fl_90_PI fl_90_PI_180) simp

lemma quarter_turn:
  "1 / 2 ^ 55 \<le> cos (Math_PI / 2)" "cos (Math_PI / 2) \<le> 1 / 2 ^ 51"
  "1 - 1 / 2 ^ 54 \<le> sin (Math_PI / 2)" "sin (Math_PI / 2) \<le> 1"
proof -
  define d where "d = pi / 2 - Math_PI / 2"
  have d: "42 / 10 ^ 18 \<le> d" "d \<le> 93 / 10 ^ 18"
    unfolding d_def Math_PI_def using pi_bounds by simp_all
  have d0: "0 \<le> d" using d(1) by simp
  have e: "Math_PI / 2 = pi / 2 - d" by (simp add: d_def)
  have c: "cos (Math_PI / 2) = sin d" and s: "sin (Math_PI / 2) = cos d"
    unfolding e by (simp_all add: cos_diff sin_diff)
  have "\<bar>sin d - (\<Sum>m<3. sin_coeff m * d ^ m)\<bar> \<le> inverse (fact 3) * \<bar>d\<bar> ^ 3"
    by (rule Maclaurin_sin_bound)
  moreover have "(\<Sum>m<3. sin_coeff m * d ^ m) = d"
    by (simp add: sin_coeff_def eval_nat_numeral)
  moreover have "(fact 3 :: real) = 6"
    by (simp add: eval_nat_numeral)
  ultimately have m: "\<bar>sin d - d\<bar> \<le> d ^ 3 / 6"
    using d0 by simp
  have "d ^ 3 \<le> (93 / 10 ^ 18) ^ 3"
    using d0 d(2) by (intro power_mono) simp_all
  then have lo: "42 / 10 ^ 18 - (93 / 10 ^ 18) ^ 3 / 6 \<le> sin d"
    using m d(1) by linarith
  have hi: "sin d \<le> 93 / 10 ^ 18"
    using sin_x_le_x [OF d0] d(2) by linarith
  have n1: "(1::real) / 2 ^ 55 \<le> 42 / 10 ^ 18 - (93 / 10 ^ 18) ^ 3 / 6"
    by (simp add: power_divide)
  have n2: "(93::real) / 10 ^ 18 \<le> 1 / 2 ^ 51"
    by simp
  have n3: "((93::real) / 10 ^ 18) ^ 2 \<le> 1 / 2 ^ 54"
    by (simp add: power_divide)
  show "1 / 2 ^ 55 \<le> cos (Math_PI / 2)"
    unfolding c using lo n1 by linarith
  show "cos (Math_PI / 2) \<le> 1 / 2 ^ 51"
    unfolding c using hi n2 by linarith
  have "(0::real) \<le> 1 / 2 ^ 55" by simp
  then have s0: "0 \<le> sin d" using lo n1 by linarith
  have "sin d ^ 2 \<le> (93 / 10 ^ 18) ^ 2"
    using s0 hi by (intro power_mono) simp_all
  moreover have "cos d ^ 2 = 1 - sin d ^ 2"
    by (simp add: cos_squared_eq)
  moreover have "0 \<le> cos d"
    using d0 d(2) pi_bounds(1) by (intro cos_ge_zero) simp_all
  moreover have "cos d ^ 2 \<le> cos d"
    using \<open>0 \<le> cos d\<close> cos_le_one [of d] by (simp add: power2_eq_square mult_left_le)
  ultimately show "1 - 1 / 2 ^ 54 \<le> sin (Math_PI / 2)"
    unfolding s using n3 by linarith
  show "sin (Math_PI / 2) \<le> 1" by simp
qed

lemma rotDims_90: "rotDims (Some 12) (Some 1) 90 = (Some 2, Some 12)"
proof -
  define c where "c = Math_cos (angleRad_of 90)"
  have c: "1 / 2 ^ 55 \<le> c" "c \<le> 1 / 2 ^ 51"
    unfolding c_def Math_cos_def angleRad_of_90
    using fl_mono [OF quarter_turn(1)] fl_mono [OF quarter_turn(2)]
    by ((simp_all only: fl_c_lo fl_c_hi), (simp_all)?)
  have s: "Math_sin (angleRad_of 90) = 1"
  proof -
    have "fl (1 - 1 / 2 ^ 54) \<le> fl (sin (Math_PI / 2))" "fl (sin (Math_PI / 2)) \<le> fl 1"
      using quarter_turn(3,4) by (auto intro: fl_mono)
    then show ?thesis
      unfolding Math_sin_def angleRad_of_90 fl_s_lo by (simp add: fl_Ints)
  qed
  have ac: "\<bar>c\<bar> = c" using c(1) by simp
  have w12: "3 / 9007199254740992 \<le> fl (12 * c)" "fl (12 * c) \<le> 3 / 562949953421312"
    using fl_mono [of "12 * (1 / 2 ^ 55)" "12 * c"] fl_mono [of "12 * c" "12 * (1 / 2 ^ 51)"] c
    by ((simp_all only: fl_12c_lo fl_12c_hi), (simp_all)?)
  have w: "2251799813685249 / 2251799813685248 \<le> fl (fl (12 * c) + 1)"
    "fl (fl (12 * c) + 1) \<le> 562949953421315 / 562949953421312"
    using fl_mono [of "12 * (1 / 2 ^ 55) + 1" "fl (12 * c) + 1"]
      fl_mono [of "fl (12 * c) + 1" "12 * (1 / 2 ^ 51) + 1"] w12
    by ((simp_all only: fl_w_lo fl_w_hi), (simp_all)?)
  have rw: "\<lceil>fl (fl (12 * c) + 1)\<rceil> = 2"
    using w by (intro ceiling_unique) simp_all
  have c1: "1 / 2 ^ 55 \<le> fl c" "fl c \<le> 1 / 2 ^ 51"
    using fl_mono [OF c(1)] fl_mono [OF c(2)] by ((simp_all only: fl_c_lo fl_c_hi), (simp_all)?)
  have h: "12 \<le> fl (12 + fl c)" "fl (12 + fl c) \<le> 12"
    using fl_mono [of "12 + 1 / 2 ^ 55" "12 + fl c"] fl_mono [of "12 + fl c" "12 + 1 / 2 ^ 51"] c1
    by ((simp_all only: fl_h_lo fl_h_hi), (simp_all)?)
  then have rh: "\<lceil>fl (12 + fl c)\<rceil> = 12"
    by simp
  show ?thesis
    unfolding rotDims_def Let_def s c_def [symmetric]
    using rw rh by (simp add: ac fl_Ints)
qed

section \<open>The outcomes of a click\<close>

lemma click_loaded:
  assumes "src (img s) \<noteq> []"
  shows "(\<exists>err s'. processBtn_click cv inp s =
            Some (s', Some (''Error processing image: '' @ err)) \<and>
          lastStrokes s' = lastStrokes s \<and> lastCanvasSize s' = lastCanvasSize s \<and>
          (\<exists>ang\<in>set (passAngles (angleDeg_of inp) (passes_of inp)).
             extractStrokesFromImage cv (img s)
               (targetPxWidth (parseFloat (widthMM inp)) (parseFloat (pxPerMM inp)))
               (targetPxHeight (naturalHeight (img s))
                  (scale (targetPxWidth (parseFloat (widthMM inp)) (parseFloat (pxPerMM inp)))
                     (naturalWidth (img s))))
               ang (lineSpacingPx_of inp) (threshold inp) = Some (Inl err))) \<or>
      (\<exists>s'. \<exists>ps :: pass list. processBtn_click cv inp s = Some (s', None) \<and>
          lastStrokes s' =
            Some (concat (map (\<lambda>p. map (toMM (mmPerPx_of inp)) (pass_strokes p)) ps)) \<and>
          map pass_angle ps = passAngles (angleDeg_of inp) (passes_of inp) \<and>
          (\<forall>p\<in>set ps.
             extractStrokesFromImage cv (img s)
               (targetPxWidth (parseFloat (widthMM inp)) (parseFloat (pxPerMM inp)))
               (targetPxHeight (naturalHeight (img s))
                  (scale (targetPxWidth (parseFloat (widthMM inp)) (parseFloat (pxPerMM inp)))
                     (naturalWidth (img s))))
               (pass_angle p) (lineSpacingPx_of inp) (threshold inp)
               = Some (Inr (pass_strokes p))) \<and>
          cs_w (lastCanvasSize s') =
            targetPxWidth (parseFloat (widthMM inp)) (parseFloat (pxPerMM inp)) \<and>
          length (cs_angles (lastCanvasSize s')) = nat (passes_of inp))"
proof -
  let ?w = "targetPxWidth (parseFloat (widthMM inp)) (parseFloat (pxPerMM inp))"
  let ?h = "targetPxHeight (naturalHeight (img s)) (scale ?w (naturalWidth (img s)))"
  let ?angles = "passAngles (angleDeg_of inp) (passes_of inp)"
  let ?sp = "lineSpacingPx_of inp"
  let ?th = "threshold inp"
  from click_cases [OF assms, of cv inp]
  consider err where "extractPasses cv (img s) ?w ?h ?sp ?th ?angles = Some (Inl err)"
      "processBtn_click cv inp s =
         Some (s\<lparr>processBtn_disabled := False\<rparr>, Some (''Error processing image: '' @ err))"
    | ps where "extractPasses cv (img s) ?w ?h ?sp ?th ?angles = Some (Inr ps)"
      "processBtn_click cv inp s =
              Some (s\<lparr>lastStrokes := Some (combinedStrokes (mmPerPx_of inp) ps),
                      lastCanvasSize :=
                        \<lparr>cs_w = ?w, cs_h = ?h, cs_mmPerPx = mmPerPx_of inp, cs_angles = ?angles\<rparr>,
                      downloadPNG_disabled := False,
                      downloadGcode_disabled := False,
                      processBtn_disabled := False\<rparr>, None)"
    by blast
  then show ?thesis
  proof cases
    case 1
    have "\<exists>ang\<in>set ?angles. extractStrokesFromImage cv (img s) ?w ?h ang ?sp ?th = Some (Inl err)"
      using extractPasses_cases [of ?sp cv "img s" ?w ?h ?th ?angles,
          OF lineSpacingPx_of_ge1 [of inp]] 1(1)
      by auto
    then show ?thesis
      using 1(2) by - (rule disjI1, rule exI [of _ err],
          rule exI [of _ "s\<lparr>processBtn_disabled := False\<rparr>"], simp)
  next
    case 2
    have "map pass_angle ps = ?angles \<and>
        (\<forall>p\<in>set ps. extractStrokesFromImage cv (img s) ?w ?h (pass_angle p) ?sp ?th
            = Some (Inr (pass_strokes p)))"
      using extractPasses_cases [of ?sp cv "img s" ?w ?h ?th ?angles,
          OF lineSpacingPx_of_ge1 [of inp]] 2(1)
      by auto
    then show ?thesis
      using 2(2)
      by - (rule disjI2,
          rule exI [of _ "s\<lparr>lastStrokes := Some (combinedStrokes (mmPerPx_of inp) ps),
                      lastCanvasSize :=
                        \<lparr>cs_w = ?w, cs_h = ?h, cs_mmPerPx = mmPerPx_of inp, cs_angles = ?angles\<rparr>,
                      downloadPNG_disabled := False,
                      downloadGcode_disabled := False,
                      processBtn_disabled := False\<rparr>"],
          rule exI [of _ ps], simp add: combinedStrokes_toMM length_passAngles)
  qed
qed

section \<open>The claims\<close>

text \<open>
  C1. For a row spacing of at least 1 and a canvas that returns its pixels,
  \<open>extractStrokesFromImage\<close> returns the Segments of the scanned rows \<open>0, spacing,
  2 * spacing, ...\<close> below \<open>rotH\<close>, row after row. The Segments of a row are, each
  once, the Segments \<open>(a, y)-(b, y)\<close> of the maximal runs \<open>a..b\<close> of adjacent dark pixels
  of that row. A row whose dark pixels are exactly the columns 2, 3, 4, 9 and 10 gives the
  two Segments \<open>(2, y)-(4, y)\<close> and \<open>(9, y)-(10, y)\<close>, and a run of the single pixel
  \<open>a\<close> gives the Segment \<open>(a, y)-(a, y)\<close>.
\<close>

theorem run_scanner_one_segment_per_run:
  assumes "1 \<le> lineSpacingPx" "rotDims targetW targetH angleDeg = (Some rotW, Some rotH)"
    "cv image' targetW targetH (angleRad_of angleDeg) (Some rotW) (Some rotH) = Inr data"
  shows "extractStrokesFromImage cv image' targetW targetH angleDeg (Some lineSpacingPx) th =
           Some (Inr (concat (map (\<lambda>y. scanRow rotW rotH data th y [])
                                (rowsFrom rotH lineSpacingPx 0)))) \<and>
         (\<forall>y. distinct (scanRow rotW rotH data th y []) \<and>
              set (scanRow rotW rotH data th y []) =
                {seg y a b | a b. isMaxRun (\<lambda>c. isDark rotW rotH data th c y) rotW a b}) \<and>
         (\<forall>y. 10 < rotW \<and>
              (\<forall>c\<in>{0..<rotW}. isDark rotW rotH data th c y \<longleftrightarrow> c \<in> {2, 3, 4, 9, 10}) \<longrightarrow>
              scanRow rotW rotH data th y [] = [seg y 2 4, seg y 9 10]) \<and>
         (\<forall>y a. isMaxRun (\<lambda>c. isDark rotW rotH data th c y) rotW a a \<longrightarrow>
              [\<lparr>pt_x = a, pt_y = y\<rparr>, \<lparr>pt_x = a, pt_y = y\<rparr>] \<in> set (scanRow rotW rotH data th y []))"
proof (intro conjI allI impI)
  show "extractStrokesFromImage cv image' targetW targetH angleDeg (Some lineSpacingPx) th =
           Some (Inr (concat (map (\<lambda>y. scanRow rotW rotH data th y [])
                                (rowsFrom rotH lineSpacingPx 0))))"
    using extract_rows [where cv = cv and image' = image', OF assms] .
next
  fix y show "distinct (scanRow rotW rotH data th y [])"
    using scanRow_set_distinct by blast
next
  fix y show "set (scanRow rotW rotH data th y []) =
                {seg y a b | a b. isMaxRun (\<lambda>c. isDark rotW rotH data th c y) rotW a b}"
    using scanRow_set_distinct by blast
next
  fix y assume "10 < rotW \<and>
      (\<forall>c\<in>{0..<rotW}. isDark rotW rotH data th c y \<longleftrightarrow> c \<in> {2, 3, 4, 9, 10})"
  then show "scanRow rotW rotH data th y [] = [seg y 2 4, seg y 9 10]"
    using example_row by blast
next
  fix y a assume "isMaxRun (\<lambda>c. isDark rotW rotH data th c y) rotW a a"
  then have "seg y a a \<in> set (scanRow rotW rotH data th y [])"
    using scanRow_set_distinct [of rotW rotH data th y] by blast
  then show "[\<lparr>pt_x = a, pt_y = y\<rparr>, \<lparr>pt_x = a, pt_y = y\<rparr>] \<in> set (scanRow rotW rotH data th y [])"
    by (simp add: seg_def)
qed

theorem run_scanner_one_segment_per_run_witness:
  "(1::int) \<le> 1 \<and> rotDims (Some 12) (Some 1) 0 = (Some 12, Some 1) \<and>
   rowCanvas img12 (Some 12) (Some 1) (angleRad_of 0) (Some 12) (Some 1) = Inr row12 \<and>
   10 < (12::int) \<and>
   map (\<lambda>c. isDark 12 1 row12 (Some 128) c 0) [0..11] =
     [False, False, True, True, True, False, False, False, False, True, True, False] \<and>
   extractStrokesFromImage rowCanvas img12 (Some 12) (Some 1) 0 (Some 1) (Some 128) =
     Some (Inr [[\<lparr>pt_x = 2, pt_y = 0\<rparr>, \<lparr>pt_x = 4, pt_y = 0\<rparr>],
                [\<lparr>pt_x = 9, pt_y = 0\<rparr>, \<lparr>pt_x = 10, pt_y = 0\<rparr>]])"
proof -
  have h: "(1::int) \<le> 1" "rotDims (Some 12) (Some 1) 0 = (Some 12, Some 1)"
    "rowCanvas img12 (Some 12) (Some 1) (angleRad_of 0) (Some 12) (Some 1) = Inr row12"
    by (simp_all add: rotDims_0 rowCanvas_def)
  note t = run_scanner_one_segment_per_run [where cv = rowCanvas and image' = img12
      and th = "Some 128", OF h]
  have "scanRow 12 1 row12 (Some 128) 0 [] = [seg 0 2 4, seg 0 9 10]"
    using t row12_dark by simp
  moreover have "map (\<lambda>c. isDark 12 1 row12 (Some 128) c 0) [0..11] =
      [False, False, True, True, True, False, False, False, False, True, True, False]"
    by (simp add: upto.simps isDark_def pixelGray_def data_at_def row12_def px_def
        luminance_white luminance_black)
  ultimately show ?thesis
    using t h by (simp add: rowsFrom_1 seg_def)
qed

text \<open>
  C2. For a row spacing of at least 1, \<open>extractStrokesFromImage\<close> returns, and every
  Segment it returns for a pass has two points with \<open>0 \<le> x < rotW\<close> and \<open>0 \<le> y < rotH\<close> for
  the size \<open>rotW\<close> by \<open>rotH\<close> of the rotated canvas of that pass, both on the same row, and
  that row is a multiple of the row spacing. The rows that are scanned are exactly the
  multiples of the row spacing from 0 to below \<open>rotH\<close>.
\<close>

theorem segments_within_rotated_bounds:
  assumes "1 \<le> lineSpacingPx" "rotDims targetW targetH angleDeg = (Some rotW, Some rotH)"
  shows "(\<exists>r. extractStrokesFromImage cv image' targetW targetH angleDeg (Some lineSpacingPx) th = Some r \<and>
              (\<forall>strokes. r = Inr strokes \<longrightarrow>
                 (\<forall>s\<in>set strokes. length s = 2 \<and>
                    0 \<le> pt_x (s ! 0) \<and> pt_x (s ! 0) < rotW \<and>
                    0 \<le> pt_x (s ! 1) \<and> pt_x (s ! 1) < rotW \<and>
                    0 \<le> pt_y (s ! 0) \<and> pt_y (s ! 0) < rotH \<and>
                    0 \<le> pt_y (s ! 1) \<and> pt_y (s ! 1) < rotH \<and>
                    pt_y (s ! 0) = pt_y (s ! 1) \<and> lineSpacingPx dvd pt_y (s ! 0)))) \<and>
         (\<forall>data. cv image' targetW targetH (angleRad_of angleDeg) (Some rotW) (Some rotH) = Inr data \<longrightarrow>
            extractStrokesFromImage cv image' targetW targetH angleDeg (Some lineSpacingPx) th =
              Some (Inr (concat (map (\<lambda>y. scanRow rotW rotH data th y [])
                                   (rowsFrom rotH lineSpacingPx 0))))) \<and>
         set (rowsFrom rotH lineSpacingPx 0) = {y. 0 \<le> y \<and> y < rotH \<and> lineSpacingPx dvd y}"
proof -
  have a: "\<exists>r. extractStrokesFromImage cv image' targetW targetH angleDeg (Some lineSpacingPx) th = Some r \<and>
              (\<forall>strokes. r = Inr strokes \<longrightarrow>
                 (\<forall>s\<in>set strokes. length s = 2 \<and>
                    0 \<le> pt_x (s ! 0) \<and> pt_x (s ! 0) < rotW \<and>
                    0 \<le> pt_x (s ! 1) \<and> pt_x (s ! 1) < rotW \<and>
                    0 \<le> pt_y (s ! 0) \<and> pt_y (s ! 0) < rotH \<and>
                    0 \<le> pt_y (s ! 1) \<and> pt_y (s ! 1) < rotH \<and>
                    pt_y (s ! 0) = pt_y (s ! 1) \<and> lineSpacingPx dvd pt_y (s ! 0)))"
  proof (cases "cv image' targetW targetH (angleRad_of angleDeg) (Some rotW) (Some rotH)")
    case (Inl err)
    then show ?thesis
      using assms(2) unfolding extractStrokesFromImage_def by simp
  next
    case (Inr data)
    let ?all = "concat (map (\<lambda>y. scanRow rotW rotH data th y []) (rowsFrom rotH lineSpacingPx 0))"
    have e: "extractStrokesFromImage cv image' targetW targetH angleDeg (Some lineSpacingPx) th = Some (Inr ?all)"
      using extract_rows [where cv = cv and image' = image', OF assms Inr] .
    have "length s = 2 \<and>
                   0 \<le> pt_x (s ! 0) \<and> pt_x (s ! 0) < rotW \<and>
                   0 \<le> pt_x (s ! 1) \<and> pt_x (s ! 1) < rotW \<and>
                   0 \<le> pt_y (s ! 0) \<and> pt_y (s ! 0) < rotH \<and>
                   0 \<le> pt_y (s ! 1) \<and> pt_y (s ! 1) < rotH \<and>
                   pt_y (s ! 0) = pt_y (s ! 1) \<and> lineSpacingPx dvd pt_y (s ! 0)"
      if mem: "s \<in> set ?all" for s
    proof -
      obtain y a b where s: "y \<in> set (rowsFrom rotH lineSpacingPx 0)" "s = seg y a b"
          "isMaxRun (\<lambda>c. isDark rotW rotH data th c y) rotW a b"
        using rows_segs [OF mem] by blast
      have "0 \<le> y" "y < rotH" "lineSpacingPx dvd y"
        using s(1) by (simp_all add: rowsFrom_set)
      moreover have "0 \<le> a" "a \<le> b" "b < rotW"
        using s(3) unfolding isMaxRun_def by simp_all
      ultimately show ?thesis
        using s(2) by (simp add: seg_def)
    qed
    then have all: "\<forall>s\<in>set ?all. length s = 2 \<and>
                   0 \<le> pt_x (s ! 0) \<and> pt_x (s ! 0) < rotW \<and>
                   0 \<le> pt_x (s ! 1) \<and> pt_x (s ! 1) < rotW \<and>
                   0 \<le> pt_y (s ! 0) \<and> pt_y (s ! 0) < rotH \<and>
                   0 \<le> pt_y (s ! 1) \<and> pt_y (s ! 1) < rotH \<and>
                   pt_y (s ! 0) = pt_y (s ! 1) \<and> lineSpacingPx dvd pt_y (s ! 0)"
      by blast
    show ?thesis
    proof (intro exI [of _ "Inr ?all"] conjI allI impI)
      show "extractStrokesFromImage cv image' targetW targetH angleDeg (Some lineSpacingPx) th = Some (Inr ?all)"
        by (rule e)
    next
      fix strokes :: "int stroke list"
      assume "Inr ?all = (Inr strokes :: string + int stroke list)"
      then have "strokes = ?all" by simp
      then show "\<forall>s\<in>set strokes. length s = 2 \<and>
                   0 \<le> pt_x (s ! 0) \<and> pt_x (s ! 0) < rotW \<and>
                   0 \<le> pt_x (s ! 1) \<and> pt_x (s ! 1) < rotW \<and>
                   0 \<le> pt_y (s ! 0) \<and> pt_y (s ! 0) < rotH \<and>
                   0 \<le> pt_y (s ! 1) \<and> pt_y (s ! 1) < rotH \<and>
                   pt_y (s ! 0) = pt_y (s ! 1) \<and> lineSpacingPx dvd pt_y (s ! 0)"
        using all by (simp only:)
    qed
  qed
  have b: "\<forall>data. cv image' targetW targetH (angleRad_of angleDeg) (Some rotW) (Some rotH) = Inr data \<longrightarrow>
            extractStrokesFromImage cv image' targetW targetH angleDeg (Some lineSpacingPx) th =
              Some (Inr (concat (map (\<lambda>y. scanRow rotW rotH data th y [])
                                   (rowsFrom rotH lineSpacingPx 0))))"
    using extract_rows [where cv = cv and image' = image', OF assms] by blast
  have c: "set (rowsFrom rotH lineSpacingPx 0) = {y. 0 \<le> y \<and> y < rotH \<and> lineSpacingPx dvd y}"
    using assms(1) by (simp add: rowsFrom_set)
  from a b c show ?thesis by blast
qed

theorem segments_within_rotated_bounds_witness:
  "(1::int) \<le> 1 \<and> rotDims (Some 12) (Some 1) 0 = (Some 12, Some 1) \<and>
   extractStrokesFromImage rowCanvas img12 (Some 12) (Some 1) 0 (Some 1) (Some 128) =
     Some (Inr [[\<lparr>pt_x = 2, pt_y = 0\<rparr>, \<lparr>pt_x = 4, pt_y = 0\<rparr>],
                [\<lparr>pt_x = 9, pt_y = 0\<rparr>, \<lparr>pt_x = 10, pt_y = 0\<rparr>]]) \<and>
   (0::int) \<le> 2 \<and> (4::int) < 12 \<and> (0::int) \<le> 9 \<and> (10::int) < 12 \<and> (0::int) < 1 \<and> (1::int) dvd 0 \<and>
   rowsFrom 1 1 0 = [0]"
proof -
  have h: "(1::int) \<le> 1" "rotDims (Some 12) (Some 1) 0 = (Some 12, Some 1)"
    by (simp_all add: rotDims_0)
  show ?thesis
    using segments_within_rotated_bounds [where cv = rowCanvas and image' = img12
        and th = "Some 128", OF h]
      h extract_row12
    by (simp add: seg_def rowsFrom_1)
qed

text \<open>
  C3. For a loaded image of positive natural width and a resolution that is not zero, the
  click handler returns. When it has stored a PlotJob, the merged Stroke list is the
  Strokes of the passes one pass after the other, in the order in which the angles were
  generated, each Stroke converted to millimetres in place; and the Strokes of one pass, as
  \<open>extractStrokesFromImage\<close> returned them for the stored target size, are in increasing
  order of scan row and, within a row, of the column of their first point.
\<close>

theorem merged_strokes_ordered:
  assumes "src (img s) \<noteq> []" "0 < naturalWidth (img s)" "parseFloat (pxPerMM inp) \<noteq> Some 0"
  shows "\<exists>r. processBtn_click cv inp s = Some r \<and>
           (\<forall>s'. r = (s', None) \<longrightarrow>
              (\<exists>ps :: pass list.
                 map pass_angle ps = passAngles (angleDeg_of inp) (passes_of inp) \<and>
                 lastStrokes s' =
                   Some (concat (map (\<lambda>p. map (toMM (mmPerPx_of inp)) (pass_strokes p)) ps)) \<and>
                 (\<forall>p\<in>set ps.
                    extractStrokesFromImage cv (img s) (cs_w (lastCanvasSize s'))
                      (cs_h (lastCanvasSize s')) (pass_angle p) (lineSpacingPx_of inp)
                      (threshold inp) = Some (Inr (pass_strokes p)) \<and>
                    sorted_wrt rowThenX (pass_strokes p))))"
proof -
  obtain r where r: "processBtn_click cv inp s = Some r"
    using click_returns by blast
  have "\<exists>ps :: pass list.
                 map pass_angle ps = passAngles (angleDeg_of inp) (passes_of inp) \<and>
                 lastStrokes s' =
                   Some (concat (map (\<lambda>p. map (toMM (mmPerPx_of inp)) (pass_strokes p)) ps)) \<and>
                 (\<forall>p\<in>set ps.
                    extractStrokesFromImage cv (img s) (cs_w (lastCanvasSize s'))
                      (cs_h (lastCanvasSize s')) (pass_angle p) (lineSpacingPx_of inp)
                      (threshold inp) = Some (Inr (pass_strokes p)) \<and>
                    sorted_wrt rowThenX (pass_strokes p))"
    if ok: "r = (s', None)" for s'
  proof -
    let ?w = "targetPxWidth (parseFloat (widthMM inp)) (parseFloat (pxPerMM inp))"
    let ?h = "targetPxHeight (naturalHeight (img s)) (scale ?w (naturalWidth (img s)))"
    let ?angles = "passAngles (angleDeg_of inp) (passes_of inp)"
    have click: "processBtn_click cv inp s = Some (s', None)"
      using r ok by simp
    obtain ps where ps: "extractPasses cv (img s) ?w ?h (lineSpacingPx_of inp) (threshold inp) ?angles
          = Some (Inr ps)"
        and s': "s' = s\<lparr>lastStrokes := Some (combinedStrokes (mmPerPx_of inp) ps),
                        lastCanvasSize :=
                          \<lparr>cs_w = ?w, cs_h = ?h, cs_mmPerPx = mmPerPx_of inp, cs_angles = ?angles\<rparr>,
                        downloadPNG_disabled := False,
                        downloadGcode_disabled := False,
                        processBtn_disabled := False\<rparr>"
      using click_success [OF assms(1) click] by blast
    have "map pass_angle ps = ?angles \<and>
        (\<forall>p\<in>set ps. extractStrokesFromImage cv (img s) ?w ?h (pass_angle p) (lineSpacingPx_of inp)
            (threshold inp) = Some (Inr (pass_strokes p)))"
      using extractPasses_cases [of "lineSpacingPx_of inp" cv "img s" ?w ?h "threshold inp" ?angles,
          OF lineSpacingPx_of_ge1 [of inp]] ps
      by auto
    moreover from this have "\<forall>p\<in>set ps. sorted_wrt rowThenX (pass_strokes p)"
      using extract_sorted [of "lineSpacingPx_of inp", OF lineSpacingPx_of_ge1 [of inp]] by blast
    moreover have "lastStrokes s' =
        Some (concat (map (\<lambda>p. map (toMM (mmPerPx_of inp)) (pass_strokes p)) ps))"
      using s' by (simp add: combinedStrokes_toMM)
    moreover have "cs_w (lastCanvasSize s') = ?w" "cs_h (lastCanvasSize s') = ?h"
      using s' by simp_all
    ultimately show ?thesis
      by - (rule exI [of _ ps], simp)
  qed
  then show ?thesis
    using r by blast
qed

theorem merged_strokes_ordered_witness:
  "src (img (state0 img10)) \<noteq> [] \<and> 0 < naturalWidth (img (state0 img10)) \<and>
   parseFloat (pxPerMM inputs10) \<noteq> Some 0 \<and>
   processBtn_click blackCanvas inputs10 (state0 img10) =
     Some ((state0 img10)\<lparr>lastStrokes :=
               Some [[\<lparr>pt_x = Some 0, pt_y = Some 0\<rparr>, \<lparr>pt_x = Some 9, pt_y = Some 0\<rparr>],
                     [\<lparr>pt_x = Some 0, pt_y = Some 2\<rparr>, \<lparr>pt_x = Some 9, pt_y = Some 2\<rparr>],
                     [\<lparr>pt_x = Some 0, pt_y = Some 4\<rparr>, \<lparr>pt_x = Some 9, pt_y = Some 4\<rparr>],
                     [\<lparr>pt_x = Some 0, pt_y = Some 6\<rparr>, \<lparr>pt_x = Some 9, pt_y = Some 6\<rparr>],
                     [\<lparr>pt_x = Some 0, pt_y = Some 8\<rparr>, \<lparr>pt_x = Some 9, pt_y = Some 8\<rparr>]],
             lastCanvasSize :=
               \<lparr>cs_w = Some 10, cs_h = Some 10, cs_mmPerPx = Some 1, cs_angles = [0]\<rparr>,
             downloadPNG_disabled := False,
             downloadGcode_disabled := False,
             processBtn_disabled := False\<rparr>, None) \<and>
   sorted_wrt rowThenX [seg 0 0 9, seg 2 0 9, seg 4 0 9, seg 6 0 9, seg 8 0 9]"
proof -
  have h: "src (img (state0 img10)) \<noteq> []" "0 < naturalWidth (img (state0 img10))"
    "parseFloat (pxPerMM inputs10) \<noteq> Some 0"
    by (simp_all add: state0_def img10_def inputs10_def parseFloat_def fl_Ints)
  show ?thesis
    using merged_strokes_ordered [OF h, of blackCanvas] h click_black10
    by (simp add: rowThenX_def seg_def)
qed




text \<open>
  C5, as stated, fails. A target width of -5 mm is invalid input, and the handler raises
  no error for it: the target width becomes 1 pixel, the 10 by 10 image is scaled to 1 by
  1, and a PlotJob of one Stroke is stored.
\<close>

theorem invalid_input_not_rejected:
  "invalidInput inputsNegWidth img10 \<and>
   processBtn_click blackCanvas inputsNegWidth (state0 img10) =
     Some ((state0 img10)\<lparr>lastStrokes :=
               Some [[\<lparr>pt_x = Some 0, pt_y = Some 0\<rparr>, \<lparr>pt_x = Some 0, pt_y = Some 0\<rparr>]],
             lastCanvasSize :=
               \<lparr>cs_w = Some 1, cs_h = Some 1, cs_mmPerPx = Some 1, cs_angles = [0]\<rparr>,
             downloadPNG_disabled := False,
             downloadGcode_disabled := False,
             processBtn_disabled := False\<rparr>, None)"
  using click_negWidth by (simp add: invalidInput_def inputsNegWidth_def)

text \<open>
  C5, amended. The handler validates none of its parameters and has no error of its own.
  With no image loaded it returns at once: the state is unchanged and nothing is reported.
  For a loaded image of positive natural width and a resolution that is not zero, whatever
  the fields of the form hold, the click ends in one of two ways: a pass made the canvas
  throw, the exception is reported in an alert, and the state keeps its previous PlotJob;
  or every pass returned, and a complete PlotJob is stored, the Strokes of one pass for each
  angle, each pass scanned with the threshold as the form gives it. Where the width and the
  resolution are numbers the target width is at least 1 pixel, where the line spacing and
  the resolution are numbers the row spacing is at least 1 pixel, and there is at least one
  pass. A field that holds no number is not rejected either: the target width, or the row
  spacing, is then NaN, which the clamp to 1 lets through. The threshold is not clamped: a
  pixel is dark when its luminance is below the number in the field, and no pixel is dark
  when the field holds none.
\<close>

theorem click_clamps_and_stores:
  "(src (img s) = [] \<longrightarrow> processBtn_click cv inp s = Some (s, None)) \<and>
   (src (img s) \<noteq> [] \<and> 0 < naturalWidth (img s) \<and> parseFloat (pxPerMM inp) \<noteq> Some 0 \<longrightarrow>
      (\<exists>err s'. processBtn_click cv inp s =
            Some (s', Some (''Error processing image: '' @ err)) \<and>
          lastStrokes s' = lastStrokes s \<and> lastCanvasSize s' = lastCanvasSize s \<and>
          (\<exists>ang\<in>set (passAngles (angleDeg_of inp) (passes_of inp)).
             extractStrokesFromImage cv (img s)
               (targetPxWidth (parseFloat (widthMM inp)) (parseFloat (pxPerMM inp)))
               (targetPxHeight (naturalHeight (img s))
                  (scale (targetPxWidth (parseFloat (widthMM inp)) (parseFloat (pxPerMM inp)))
                     (naturalWidth (img s))))
               ang (lineSpacingPx_of inp) (threshold inp) = Some (Inl err))) \<or>
      (\<exists>s'. \<exists>ps :: pass list. processBtn_click cv inp s = Some (s', None) \<and>
          lastStrokes s' =
            Some (concat (map (\<lambda>p. map (toMM (mmPerPx_of inp)) (pass_strokes p)) ps)) \<and>
          map pass_angle ps = passAngles (angleDeg_of inp) (passes_of inp) \<and>
          (\<forall>p\<in>set ps.
             extractStrokesFromImage cv (img s)
               (targetPxWidth (parseFloat (widthMM inp)) (parseFloat (pxPerMM inp)))
               (targetPxHeight (naturalHeight (img s))
                  (scale (targetPxWidth (parseFloat (widthMM inp)) (parseFloat (pxPerMM inp)))
                     (naturalWidth (img s))))
               (pass_angle p) (lineSpacingPx_of inp) (threshold inp)
               = Some (Inr (pass_strokes p))) \<and>
          cs_w (lastCanvasSize s') =
            targetPxWidth (parseFloat (widthMM inp)) (parseFloat (pxPerMM inp)) \<and>
          length (cs_angles (lastCanvasSize s')) = nat (passes_of inp))) \<and>
   (widthMM inp \<noteq> None \<and> pxPerMM inp \<noteq> None \<longrightarrow>
      (\<exists>w. targetPxWidth (parseFloat (widthMM inp)) (parseFloat (pxPerMM inp)) = Some w \<and> 1 \<le> w)) \<and>
   (lineSpacingMM inp \<noteq> None \<and> pxPerMM inp \<noteq> None \<longrightarrow>
      (\<exists>sp. lineSpacingPx_of inp = Some sp \<and> 1 \<le> sp)) \<and>
   1 \<le> passes_of inp \<and>
   (widthMM inp = None \<or> pxPerMM inp = None \<longrightarrow>
      targetPxWidth (parseFloat (widthMM inp)) (parseFloat (pxPerMM inp)) = None) \<and>
   (lineSpacingMM inp = None \<or> pxPerMM inp = None \<longrightarrow> lineSpacingPx_of inp = None) \<and>
   (isDark rotW rotH data (threshold inp) x y \<longleftrightarrow>
      (\<exists>g t. pixelGray rotW rotH data x y = Some g \<and> threshold inp = Some t \<and>
         g < real_of_int t))"
proof -
  have a: "src (img s) = [] \<longrightarrow> processBtn_click cv inp s = Some (s, None)"
    unfolding processBtn_click_def by simp
  have b: "src (img s) \<noteq> [] \<and> 0 < naturalWidth (img s) \<and> parseFloat (pxPerMM inp) \<noteq> Some 0 \<longrightarrow>
      (\<exists>err s'. processBtn_click cv inp s =
            Some (s', Some (''Error processing image: '' @ err)) \<and>
          lastStrokes s' = lastStrokes s \<and> lastCanvasSize s' = lastCanvasSize s \<and>
          (\<exists>ang\<in>set (passAngles (angleDeg_of inp) (passes_of inp)).
             extractStrokesFromImage cv (img s)
               (targetPxWidth (parseFloat (widthMM inp)) (parseFloat (pxPerMM inp)))
               (targetPxHeight (naturalHeight (img s))
                  (scale (targetPxWidth (parseFloat (widthMM inp)) (parseFloat (pxPerMM inp)))
                     (naturalWidth (img s))))
               ang (lineSpacingPx_of inp) (threshold inp) = Some (Inl err))) \<or>
      (\<exists>s'. \<exists>ps :: pass list. processBtn_click cv inp s = Some (s', None) \<and>
          lastStrokes s' =
            Some (concat (map (\<lambda>p. map (toMM (mmPerPx_of inp)) (pass_strokes p)) ps)) \<and>
          map pass_angle ps = passAngles (angleDeg_of inp) (passes_of inp) \<and>
          (\<forall>p\<in>set ps.
             extractStrokesFromImage cv (img s)
               (targetPxWidth (parseFloat (widthMM inp)) (parseFloat (pxPerMM inp)))
               (targetPxHeight (naturalHeight (img s))
                  (scale (targetPxWidth (parseFloat (widthMM inp)) (parseFloat (pxPerMM inp)))
                     (naturalWidth (img s))))
               (pass_angle p) (lineSpacingPx_of inp) (threshold inp)
               = Some (Inr (pass_strokes p))) \<and>
          cs_w (lastCanvasSize s') =
            targetPxWidth (parseFloat (widthMM inp)) (parseFloat (pxPerMM inp)) \<and>
          length (cs_angles (lastCanvasSize s')) = nat (passes_of inp))"
    using click_loaded [of s cv inp] by blast
  have c: "widthMM inp \<noteq> None \<and> pxPerMM inp \<noteq> None \<longrightarrow>
      (\<exists>w. targetPxWidth (parseFloat (widthMM inp)) (parseFloat (pxPerMM inp)) = Some w \<and> 1 \<le> w)"
    using targetPxWidth_number by auto
  have d: "lineSpacingMM inp \<noteq> None \<and> pxPerMM inp \<noteq> None \<longrightarrow>
      (\<exists>sp. lineSpacingPx_of inp = Some sp \<and> 1 \<le> sp)"
    using lineSpacingPx_of_number [of inp] by auto
  have e: "1 \<le> passes_of inp"
    by (rule passes_of_ge1)
  have f: "widthMM inp = None \<or> pxPerMM inp = None \<longrightarrow>
      targetPxWidth (parseFloat (widthMM inp)) (parseFloat (pxPerMM inp)) = None"
    using targetPxWidth_NaN by blast
  have g: "lineSpacingMM inp = None \<or> pxPerMM inp = None \<longrightarrow> lineSpacingPx_of inp = None"
    using lineSpacingPx_of_NaN by blast
  have h: "isDark rotW rotH data (threshold inp) x y \<longleftrightarrow>
      (\<exists>g t. pixelGray rotW rotH data x y = Some g \<and> threshold inp = Some t \<and>
         g < real_of_int t)"
    unfolding isDark_def by (simp split: option.splits)
  from a b c d e f g h show ?thesis by (intro conjI)
qed

theorem click_clamps_and_stores_witness:
  "src (img (state0 img10)) \<noteq> [] \<and> 0 < naturalWidth (img (state0 img10)) \<and>
   parseFloat (pxPerMM inputsNegWidth) \<noteq> Some 0 \<and>
   widthMM inputsNegWidth = Some (- 5) \<and> pxPerMM inputsNegWidth \<noteq> None \<and>
   lineSpacingMM inputsNegWidth \<noteq> None \<and>
   targetPxWidth (parseFloat (widthMM inputsNegWidth)) (parseFloat (pxPerMM inputsNegWidth))
     = Some 1 \<and>
   lineSpacingPx_of inputsNegWidth = Some 1 \<and>
   processBtn_click blackCanvas inputsNegWidth (state0 img10) =
     Some ((state0 img10)\<lparr>lastStrokes :=
               Some [[\<lparr>pt_x = Some 0, pt_y = Some 0\<rparr>, \<lparr>pt_x = Some 0, pt_y = Some 0\<rparr>]],
             lastCanvasSize :=
               \<lparr>cs_w = Some 1, cs_h = Some 1, cs_mmPerPx = Some 1, cs_angles = [0]\<rparr>,
             downloadPNG_disabled := False,
             downloadGcode_disabled := False,
             processBtn_disabled := False\<rparr>, None) \<and>
   src (img (state0 imgNew)) = [] \<and>
   processBtn_click blackCanvas inputsNegWidth (state0 imgNew) = Some (state0 imgNew, None) \<and>
   widthMM inputsNoWidth = None \<and>
   targetPxWidth (parseFloat (widthMM inputsNoWidth)) (parseFloat (pxPerMM inputsNoWidth)) = None \<and>
   processBtn_click blackCanvas inputsNoWidth (state0 img10) =
     Some (state0 img10, Some ''Error processing image: The source width is 0.'')"
proof -
  have h: "src (img (state0 img10)) \<noteq> []" "0 < naturalWidth (img (state0 img10))"
    "parseFloat (pxPerMM inputsNegWidth) \<noteq> Some 0" "src (img (state0 imgNew)) = []"
    "widthMM inputsNegWidth = Some (- 5)" "pxPerMM inputsNegWidth \<noteq> None"
    "lineSpacingMM inputsNegWidth \<noteq> None" "widthMM inputsNoWidth = None"
    by (simp_all add: state0_def img10_def imgNew_def inputsNegWidth_def inputsNoWidth_def
        parseFloat_def fl_Ints)
  have "targetPxWidth (parseFloat (widthMM inputsNegWidth)) (parseFloat (pxPerMM inputsNegWidth))
      = Some 1"
    by (simp add: targetPxWidth_def parseFloat_def mulD_def Math_round_def inputsNegWidth_def fl_Ints)
  moreover have "lineSpacingPx_of inputsNegWidth = Some 1"
    by (simp add: lineSpacingPx_of_def parseFloat_def mulD_def Math_round_def inputsNegWidth_def
        fl_Ints)
  ultimately show ?thesis
    using click_clamps_and_stores [of "state0 img10" blackCanvas inputsNegWidth]
      click_clamps_and_stores [of "state0 imgNew" blackCanvas inputsNegWidth]
      click_clamps_and_stores [of "state0 img10" blackCanvas inputsNoWidth]
      h click_negWidth click_noWidth
    by simp
qed

text \<open>
  C6, as stated, fails. The formula of the claim is not what the script computes, because
  the script rounds the product to a double before it rounds it to a whole number. For a
  width of 0.7 at 5 pixels per unit the double of 0.7 is below 0.7 and its exact product
  with 5 is below 3.5: the formula gives 3, and the script, whose product is the double
  3.5, takes 4. For a width of 0.145 at 100 pixels per unit the exact product of the
  decimal numbers is 14.5 and the formula gives 15; the product of the script is
  14.499999999999998 and it takes 14.
\<close>

theorem target_width_rounds_the_double_product:
  "targetPxWidth (parseFloat (Some 0.7)) (parseFloat (Some 5)) = Some 4 \<and>
   targetW_spec (fl 0.7) (fl 5) = 3 \<and>
   targetPxWidth (parseFloat (Some 0.145)) (parseFloat (Some 100)) = Some 14 \<and>
   targetW_spec 0.145 100 = 15 \<and>
   cs_w (lastCanvasSize (fst (the (processBtn_click blackCanvas inputs07 (state0 img10))))) = Some 4"
proof -
  have "targetW_spec (fl 0.7) (fl 5) = 3"
    unfolding targetW_spec_def fl_07 by (simp add: fl_Ints round_def)
  moreover have "targetW_spec 0.145 100 = 15"
    unfolding targetW_spec_def by (simp add: round_def)
  ultimately show ?thesis
    using targetPxWidth_07 targetPxWidth_0145 click_07 by simp
qed

text \<open>
  C6, amended. For a loaded image of positive natural width and a width and a resolution
  that are numbers, the click handler returns, and when it has stored a PlotJob, the target
  size it stored, which is the size it handed to every pass, is: the width
  \<open>round p\<close> but at least 1, where \<open>p\<close> is the product of the doubles of the width and
  of the resolution, rounded to a double; and the height \<open>round q\<close>, where \<open>q\<close> is the
  natural height times the scale, rounded to a double, and the scale is the width in pixels
  divided by the natural width, rounded to a double. \<open>round\<close> rounds a half up.
\<close>

theorem rasterizer_target_size:
  assumes "src (img s) \<noteq> []" "0 < naturalWidth (img s)" "widthMM inp = Some W"
    "pxPerMM inp = Some r"
  shows "\<exists>res. processBtn_click cv inp s = Some res \<and>
           (\<forall>s'. res = (s', None) \<longrightarrow>
              cs_w (lastCanvasSize s') = Some (max 1 (round (fl (fl W * fl r)))) \<and>
              1 \<le> max 1 (round (fl (fl W * fl r))) \<and>
              cs_h (lastCanvasSize s') =
                Some (round (fl (real (naturalHeight (img s)) *
                   fl (real_of_int (max 1 (round (fl (fl W * fl r)))) / real (naturalWidth (img s)))))) \<and>
              (\<exists>ps :: pass list.
                 map pass_angle ps = passAngles (angleDeg_of inp) (passes_of inp) \<and>
                 (\<forall>p\<in>set ps.
                    extractStrokesFromImage cv (img s) (cs_w (lastCanvasSize s'))
                      (cs_h (lastCanvasSize s')) (pass_angle p) (lineSpacingPx_of inp)
                      (threshold inp) = Some (Inr (pass_strokes p)))))"
proof -
  let ?w = "targetPxWidth (parseFloat (widthMM inp)) (parseFloat (pxPerMM inp))"
  let ?h = "targetPxHeight (naturalHeight (img s)) (scale ?w (naturalWidth (img s)))"
  let ?angles = "passAngles (angleDeg_of inp) (passes_of inp)"
  obtain res where res: "processBtn_click cv inp s = Some res"
    using click_returns by blast
  have w: "?w = Some (max 1 (round (fl (fl W * fl r))))"
    using targetPxWidth_number [of W r] assms(3,4) by (simp add: Math_round_round)
  have h: "?h = Some (round (fl (real (naturalHeight (img s)) *
                   fl (real_of_int (max 1 (round (fl (fl W * fl r)))) / real (naturalWidth (img s))))))"
    unfolding w targetPxHeight_def scale_def mulD_def divD_def by (simp add: Math_round_round)
  have "cs_w (lastCanvasSize s') = Some (max 1 (round (fl (fl W * fl r)))) \<and>
              1 \<le> max 1 (round (fl (fl W * fl r))) \<and>
              cs_h (lastCanvasSize s') =
                Some (round (fl (real (naturalHeight (img s)) *
                   fl (real_of_int (max 1 (round (fl (fl W * fl r)))) / real (naturalWidth (img s)))))) \<and>
              (\<exists>ps :: pass list.
                 map pass_angle ps = passAngles (angleDeg_of inp) (passes_of inp) \<and>
                 (\<forall>p\<in>set ps.
                    extractStrokesFromImage cv (img s) (cs_w (lastCanvasSize s'))
                      (cs_h (lastCanvasSize s')) (pass_angle p) (lineSpacingPx_of inp)
                      (threshold inp) = Some (Inr (pass_strokes p))))"
    if ok: "res = (s', None)" for s'
  proof -
    have click: "processBtn_click cv inp s = Some (s', None)"
      using res ok by simp
    obtain ps where ps: "extractPasses cv (img s) ?w ?h (lineSpacingPx_of inp) (threshold inp) ?angles
          = Some (Inr ps)"
        and s': "s' = s\<lparr>lastStrokes := Some (combinedStrokes (mmPerPx_of inp) ps),
                        lastCanvasSize :=
                          \<lparr>cs_w = ?w, cs_h = ?h, cs_mmPerPx = mmPerPx_of inp, cs_angles = ?angles\<rparr>,
                        downloadPNG_disabled := False,
                        downloadGcode_disabled := False,
                        processBtn_disabled := False\<rparr>"
      using click_success [OF assms(1) click] by blast
    have cs: "cs_w (lastCanvasSize s') = ?w" "cs_h (lastCanvasSize s') = ?h"
      using s' by simp_all
    have "map pass_angle ps = ?angles \<and>
        (\<forall>p\<in>set ps. extractStrokesFromImage cv (img s) ?w ?h (pass_angle p) (lineSpacingPx_of inp)
            (threshold inp) = Some (Inr (pass_strokes p)))"
      using extractPasses_cases [of "lineSpacingPx_of inp" cv "img s" ?w ?h "threshold inp" ?angles,
          OF lineSpacingPx_of_ge1 [of inp]] ps
      by auto
    then have "\<exists>ps :: pass list.
                 map pass_angle ps = passAngles (angleDeg_of inp) (passes_of inp) \<and>
                 (\<forall>p\<in>set ps.
                    extractStrokesFromImage cv (img s) (cs_w (lastCanvasSize s'))
                      (cs_h (lastCanvasSize s')) (pass_angle p) (lineSpacingPx_of inp)
                      (threshold inp) = Some (Inr (pass_strokes p)))"
      unfolding cs by - (rule exI [of _ ps], simp)
    then show ?thesis
      using cs w h by simp
  qed
  then show ?thesis
    using res by blast
qed

theorem rasterizer_target_size_witness:
  "src (img (state0 img10)) \<noteq> [] \<and> 0 < naturalWidth (img (state0 img10)) \<and>
   widthMM inputs07 = Some 0.7 \<and> pxPerMM inputs07 = Some 5 \<and>
   naturalWidth (img (state0 img10)) = 10 \<and> naturalHeight (img (state0 img10)) = 10 \<and>
   processBtn_click blackCanvas inputs07 (state0 img10) =
     Some ((state0 img10)\<lparr>lastStrokes :=
               Some [[\<lparr>pt_x = Some 0, pt_y = Some 0\<rparr>,
                      \<lparr>pt_x = Some (1351079888211149 / 2251799813685248), pt_y = Some 0\<rparr>]],
             lastCanvasSize :=
               \<lparr>cs_w = Some 4, cs_h = Some 4,
                cs_mmPerPx = Some (3602879701896397 / 18014398509481984), cs_angles = [0]\<rparr>,
             downloadPNG_disabled := False,
             downloadGcode_disabled := False,
             processBtn_disabled := False\<rparr>, None) \<and>
   max 1 (round (fl (fl 0.7 * fl 5))) = (4::int) \<and>
   round (fl (real (10::nat) * fl (real_of_int 4 / real (10::nat)))) = (4::int)"
proof -
  have h: "src (img (state0 img10)) \<noteq> []" "0 < naturalWidth (img (state0 img10))"
    "widthMM inputs07 = Some 0.7" "pxPerMM inputs07 = Some 5"
    by (simp_all add: state0_def img10_def inputs07_def)
  have n: "naturalWidth (img (state0 img10)) = 10" "naturalHeight (img (state0 img10)) = 10"
    by (simp_all add: state0_def img10_def)
  have "Some (max 1 (round (fl (fl 0.7 * fl 5)))) = Some (4::int)"
    using targetPxWidth_07 unfolding targetPxWidth_number Math_round_round .
  then have hv: "max 1 (round (fl (fl 0.7 * fl 5))) = (4::int)"
    by (simp only: option.inject)
  have a: "fl (real_of_int 4 / real (10::nat)) = 3602879701896397 / 9007199254740992"
    by (subst fl_eval [of "- 2"]) (simp_all add: power_int_minus rne_def)
  have b: "fl (real (10::nat) * (3602879701896397 / 9007199254740992)) = 4"
    by (subst fl_eval [of "2"]) (simp_all add: power_int_minus rne_def)
  have hh: "round (fl (real (10::nat) * fl (real_of_int 4 / real (10::nat)))) = (4::int)"
    by (simp only: a b) (simp add: round_def)
  from rasterizer_target_size [OF h, of blackCanvas] h n click_07 hv hh
  show ?thesis by blast
qed

text \<open>
  C7, as stated, fails. For a source of 12 by 1 pixels and an angle of 90 degrees the
  formula of the claim gives a canvas of 1 by 12 pixels, the cosine of a quarter turn being
  0. The script has no quarter turn: its angle is the double next to \<open>pi / 2\<close>, the
  cosine of that is about \<open>6.1e-17\<close>, twelve times that and 1 is a double above 1, and
  the canvas is 2 by 12 pixels.
\<close>

theorem rotated_size_at_90_degrees:
  "rotDims (Some 12) (Some 1) 90 = (Some 2, Some 12) \<and>
   rotW_spec 12 1 (90 * pi / 180) = 1 \<and> rotH_spec 12 1 (90 * pi / 180) = 12"
  using rotDims_90 by (simp add: rotW_spec_def rotH_spec_def)

text \<open>
  C7, amended. For a source buffer of \<open>W\<close> by \<open>H\<close> pixels and an angle of \<open>\<theta>\<close>
  degrees, the size of the rotated canvas is \<open>rotW = ceil (W * |c| + H * |s|)\<close> by
  \<open>rotH = ceil (W * |s| + H * |c|)\<close> in the arithmetic of doubles: \<open>c\<close> and \<open>s\<close> are
  the doubles of the cosine and of the sine of the double of \<open>\<theta> * Math.PI / 180\<close>, and
  each product and each sum is rounded to a double. It is the size that the canvas is asked
  to fill and to return, and the size that the rows and columns are scanned in. At angle 0
  it is \<open>W\<close> by \<open>H\<close>.
\<close>

theorem rotated_canvas_size:
  "rotDims (Some W) (Some H) \<theta> =
     (Some \<lceil>fl (fl (real_of_int W * \<bar>Math_cos (angleRad_of \<theta>)\<bar>) +
               fl (real_of_int H * \<bar>Math_sin (angleRad_of \<theta>)\<bar>))\<rceil>,
      Some \<lceil>fl (fl (real_of_int W * \<bar>Math_sin (angleRad_of \<theta>)\<bar>) +
               fl (real_of_int H * \<bar>Math_cos (angleRad_of \<theta>)\<bar>))\<rceil>) \<and>
   angleRad_of \<theta> = fl (fl (\<theta> * fl pi) / 180) \<and>
   (\<bar>W\<bar> \<le> 2 ^ 53 \<and> \<bar>H\<bar> \<le> 2 ^ 53 \<longrightarrow> rotDims (Some W) (Some H) 0 = (Some W, Some H)) \<and>
   (\<exists>rotW rotH. rotDims (Some W) (Some H) \<theta> = (Some rotW, Some rotH) \<and>
      extractStrokesFromImage cv image' (Some W) (Some H) \<theta> sp th =
        (case cv image' (Some W) (Some H) (angleRad_of \<theta>) (Some rotW) (Some rotH) of
           Inl err \<Rightarrow> Some (Inl err)
         | Inr data \<Rightarrow>
             map_option (\<lambda>strokes. Inr (simpleStrokes strokes))
               (scanRows rotW rotH data sp th 0 [])))"
proof -
  have a: "rotDims (Some W) (Some H) \<theta> =
     (Some \<lceil>fl (fl (real_of_int W * \<bar>Math_cos (angleRad_of \<theta>)\<bar>) +
               fl (real_of_int H * \<bar>Math_sin (angleRad_of \<theta>)\<bar>))\<rceil>,
      Some \<lceil>fl (fl (real_of_int W * \<bar>Math_sin (angleRad_of \<theta>)\<bar>) +
               fl (real_of_int H * \<bar>Math_cos (angleRad_of \<theta>)\<bar>))\<rceil>)"
    unfolding rotDims_def Let_def by simp
  have b: "angleRad_of \<theta> = fl (fl (\<theta> * fl pi) / 180)"
    unfolding angleRad_of_def Math_PI_nearest ..
  have c: "\<bar>W\<bar> \<le> 2 ^ 53 \<and> \<bar>H\<bar> \<le> 2 ^ 53 \<longrightarrow> rotDims (Some W) (Some H) 0 = (Some W, Some H)"
    using rotDims_0 by blast
  have d: "\<exists>rotW rotH. rotDims (Some W) (Some H) \<theta> = (Some rotW, Some rotH) \<and>
      extractStrokesFromImage cv image' (Some W) (Some H) \<theta> sp th =
        (case cv image' (Some W) (Some H) (angleRad_of \<theta>) (Some rotW) (Some rotH) of
           Inl err \<Rightarrow> Some (Inl err)
         | Inr data \<Rightarrow>
             map_option (\<lambda>strokes. Inr (simpleStrokes strokes))
               (scanRows rotW rotH data sp th 0 []))"
    unfolding extractStrokesFromImage_def a Let_def
    by (simp split: sum.splits option.splits)
  from a b c d show ?thesis by (intro conjI)
qed

theorem rotated_canvas_size_witness:
  "\<bar>12 :: int\<bar> \<le> 2 ^ 53 \<and> \<bar>1 :: int\<bar> \<le> 2 ^ 53 \<and>
   rotDims (Some 12) (Some 1) 0 = (Some 12, Some 1) \<and>
   rotDims (Some 12) (Some 1) 90 = (Some 2, Some 12)"
proof -
  have b: "\<bar>12 :: int\<bar> \<le> 2 ^ 53" "\<bar>1 :: int\<bar> \<le> 2 ^ 53"
    by simp_all
  from rotated_canvas_size [of 12 1 0 rowCanvas img12 "Some 1" "Some 128"] b
  have "rotDims (Some 12) (Some 1) 0 = (Some 12, Some 1)"
    by blast
  with b rotDims_90 show ?thesis
    by blast
qed

text \<open>
  C8. For a stroke with no point the emitter pushes no line. For a stroke with at least one
  point it pushes, after a comment line that numbers the stroke, exactly: one \<open>G0\<close> move
  to the first point, one \<open>G0 Z\<close> to the pen-down height, one \<open>F\<close> line with the draw
  feed, one \<open>G1\<close> move for each later point, in order, one \<open>G0 Z\<close> to the pen-up height and
  one \<open>F\<close> line with the travel feed, which is the last line, so that the next travel move
  runs at the travel feed. The file is the header, these lines for the strokes that have
  points, and the footer. Every coordinate and height is written by \<open>toFixed(3)\<close>, which
  for a number below \<open>10^21\<close> in size gives a sign, digits, a point and three digits.
\<close>

theorem emitter_stroke_lines:
  "strokeLines numStr m idx [] = [] \<and>
   (stroke \<noteq> [] \<longrightarrow>
      strokeLines numStr m idx stroke =
        [''; stroke '' @ numStr (real (idx + 1)),
         ''G0 X'' @ toFixed numStr (pt_x (hd stroke)) 3 @ '' Y'' @
           toFixed numStr (pt_y (hd stroke)) 3 @ '' ; travel'',
         ''G0 Z'' @ toFixed numStr (Some (penDownZ m)) 3 @ '' ; pen down'',
         ''F'' @ numStr (feedDraw m)]
        @ map (\<lambda>p. ''G1 X'' @ toFixed numStr (pt_x p) 3 @ '' Y'' @ toFixed numStr (pt_y p) 3)
            (tl stroke)
        @ [''G0 Z'' @ toFixed numStr (Some (penUpZ m)) 3 @ '' ; pen up'',
           ''F'' @ numStr (feedTravel m)] \<and>
      length (strokeLines numStr m idx stroke) = 6 + (length stroke - 1) \<and>
      last (strokeLines numStr m idx stroke) = ''F'' @ numStr (feedTravel m)) \<and>
   gcodeLines numStr m strokes =
     header numStr m
     @ concat (map (\<lambda>(idx, stroke). strokeLines numStr m idx stroke)
         (filter (\<lambda>(idx, stroke). stroke \<noteq> []) (enumerate 0 strokes)))
     @ [[], ''; EOF''] \<and>
   (\<bar>v\<bar> < 10 ^ 21 \<longrightarrow>
      (\<exists>a b. toFixed numStr (Some v) 3 = (if v < 0 then ''-'' else []) @ a @ ''.'' @ b \<and>
         a \<noteq> [] \<and> length b = 3 \<and> set (a @ b) \<subseteq> set ''0123456789''))"
proof -
  have a: "strokeLines numStr m idx [] = []"
    unfolding strokeLines_def by simp
  have b: "stroke \<noteq> [] \<longrightarrow>
      strokeLines numStr m idx stroke =
        [''; stroke '' @ numStr (real (idx + 1)),
         ''G0 X'' @ toFixed numStr (pt_x (hd stroke)) 3 @ '' Y'' @
           toFixed numStr (pt_y (hd stroke)) 3 @ '' ; travel'',
         ''G0 Z'' @ toFixed numStr (Some (penDownZ m)) 3 @ '' ; pen down'',
         ''F'' @ numStr (feedDraw m)]
        @ map (\<lambda>p. ''G1 X'' @ toFixed numStr (pt_x p) 3 @ '' Y'' @ toFixed numStr (pt_y p) 3)
            (tl stroke)
        @ [''G0 Z'' @ toFixed numStr (Some (penUpZ m)) 3 @ '' ; pen up'',
           ''F'' @ numStr (feedTravel m)] \<and>
      length (strokeLines numStr m idx stroke) = 6 + (length stroke - 1) \<and>
      last (strokeLines numStr m idx stroke) = ''F'' @ numStr (feedTravel m)"
    unfolding strokeLines_def Let_def drawMoves_tl
    by (simp add: hd_conv_nth)
  have c: "gcodeLines numStr m strokes =
     header numStr m
     @ concat (map (\<lambda>(idx, stroke). strokeLines numStr m idx stroke)
         (filter (\<lambda>(idx, stroke). stroke \<noteq> []) (enumerate 0 strokes)))
     @ [[], ''; EOF'']"
    unfolding gcodeLines_def using concat_strokeLines_skip [of numStr m "enumerate 0 strokes"]
    by simp
  have d: "\<bar>v\<bar> < 10 ^ 21 \<longrightarrow>
      (\<exists>a b. toFixed numStr (Some v) 3 = (if v < 0 then ''-'' else []) @ a @ ''.'' @ b \<and>
         a \<noteq> [] \<and> length b = 3 \<and> set (a @ b) \<subseteq> set ''0123456789'')"
    using toFixed_3 [of v numStr] by blast
  from a b c d show ?thesis by blast
qed

theorem emitter_stroke_lines_witness:
  "[\<lparr>pt_x = Some 2, pt_y = Some 0\<rparr>, \<lparr>pt_x = Some 4, pt_y = Some 0\<rparr>]
     \<noteq> ([] :: real option stroke) \<and>
   strokeLines wholeStr motion0 0
     [\<lparr>pt_x = Some 2, pt_y = Some 0\<rparr>, \<lparr>pt_x = Some 4, pt_y = Some 0\<rparr>] =
     [''; stroke 1'',
      ''G0 X2.000 Y0.000 ; travel'',
      ''G0 Z0.000 ; pen down'',
      ''F1500'',
      ''G1 X4.000 Y0.000'',
      ''G0 Z5.000 ; pen up'',
      ''F3000''] \<and>
   \<bar>2 :: real\<bar> < 10 ^ 21 \<and> toFixed wholeStr (Some 2) 3 = ''2.000''"
proof -
  have "[\<lparr>pt_x = Some 2, pt_y = Some 0\<rparr>, \<lparr>pt_x = Some 4, pt_y = Some 0\<rparr>]
      \<noteq> ([] :: real option stroke)"
    by simp
  then show ?thesis
    using emitter_stroke_lines [of wholeStr motion0 0
        "[\<lparr>pt_x = Some 2, pt_y = Some 0\<rparr>, \<lparr>pt_x = Some 4, pt_y = Some 0\<rparr>]" "[]" 2]
    by (simp add: toFixed_examples wholeStr_examples motion0_def)
qed

text \<open>
  C10. Every Segment \<open>extractStrokesFromImage\<close> returns has \<open>start.x \<le> end.x\<close>: its
  first point is the leftmost and its second point the rightmost pixel of a maximal run of
  dark pixels of its row, and the two are equal exactly when the run has one pixel.
\<close>

theorem segment_start_le_end:
  assumes "1 \<le> lineSpacingPx" "rotDims targetW targetH angleDeg = (Some rotW, Some rotH)"
    "cv image' targetW targetH (angleRad_of angleDeg) (Some rotW) (Some rotH) = Inr data"
  shows "\<exists>strokes. extractStrokesFromImage cv image' targetW targetH angleDeg (Some lineSpacingPx) th =
              Some (Inr strokes) \<and>
           (\<forall>s\<in>set strokes. length s = 2 \<and> pt_x (s ! 0) \<le> pt_x (s ! 1) \<and>
              isMaxRun (\<lambda>c. isDark rotW rotH data th c (pt_y (s ! 0))) rotW
                (pt_x (s ! 0)) (pt_x (s ! 1)) \<and>
              (pt_x (s ! 0) = pt_x (s ! 1) \<longleftrightarrow> card {pt_x (s ! 0)..pt_x (s ! 1)} = 1))"
proof -
  let ?all = "concat (map (\<lambda>y. scanRow rotW rotH data th y []) (rowsFrom rotH lineSpacingPx 0))"
  have e: "extractStrokesFromImage cv image' targetW targetH angleDeg (Some lineSpacingPx) th = Some (Inr ?all)"
    using extract_rows [where cv = cv and image' = image', OF assms] .
  have "length s = 2 \<and> pt_x (s ! 0) \<le> pt_x (s ! 1) \<and>
              isMaxRun (\<lambda>c. isDark rotW rotH data th c (pt_y (s ! 0))) rotW
                (pt_x (s ! 0)) (pt_x (s ! 1)) \<and>
              (pt_x (s ! 0) = pt_x (s ! 1) \<longleftrightarrow> card {pt_x (s ! 0)..pt_x (s ! 1)} = 1)"
    if mem: "s \<in> set ?all" for s
  proof -
    obtain y a b where s: "s = seg y a b"
        "isMaxRun (\<lambda>c. isDark rotW rotH data th c y) rotW a b"
      using rows_segs [OF mem] by blast
    have le: "a \<le> b" using s(2) by (rule isMaxRun_le)
    then have "a = b \<longleftrightarrow> card {a..b} = 1" by auto
    then show ?thesis
      using s le by (simp add: seg_def)
  qed
  then have "\<forall>s\<in>set ?all. length s = 2 \<and> pt_x (s ! 0) \<le> pt_x (s ! 1) \<and>
              isMaxRun (\<lambda>c. isDark rotW rotH data th c (pt_y (s ! 0))) rotW
                (pt_x (s ! 0)) (pt_x (s ! 1)) \<and>
              (pt_x (s ! 0) = pt_x (s ! 1) \<longleftrightarrow> card {pt_x (s ! 0)..pt_x (s ! 1)} = 1)"
    by blast
  then show ?thesis
    using e by (intro exI [of _ ?all] conjI)
qed

theorem segment_start_le_end_witness:
  "(1::int) \<le> 1 \<and> rotDims (Some 12) (Some 1) 0 = (Some 12, Some 1) \<and>
   rowCanvas img12 (Some 12) (Some 1) (angleRad_of 0) (Some 12) (Some 1) = Inr row12 \<and>
   extractStrokesFromImage rowCanvas img12 (Some 12) (Some 1) 0 (Some 1) (Some 128) =
     Some (Inr [[\<lparr>pt_x = 2, pt_y = 0\<rparr>, \<lparr>pt_x = 4, pt_y = 0\<rparr>],
                [\<lparr>pt_x = 9, pt_y = 0\<rparr>, \<lparr>pt_x = 10, pt_y = 0\<rparr>]]) \<and>
   isMaxRun (\<lambda>c. isDark 12 1 row12 (Some 128) c 0) 12 2 4 \<and>
   isMaxRun (\<lambda>c. isDark 12 1 row12 (Some 128) c 0) 12 9 10"
proof -
  have h: "(1::int) \<le> 1" "rotDims (Some 12) (Some 1) 0 = (Some 12, Some 1)"
    "rowCanvas img12 (Some 12) (Some 1) (angleRad_of 0) (Some 12) (Some 1) = Inr row12"
    by (simp_all add: rotDims_0 rowCanvas_def)
  show ?thesis
    using segment_start_le_end [where cv = rowCanvas and image' = img12 and th = "Some 128", OF h]
      h extract_row12
    by (simp add: seg_def)
qed


end
